theory Spec2Isabelle
  imports Complex_Main "HOL-Library.Word"
begin

section \<open>Bytes\<close>

text \<open>The input is a sequence of bytes; a C++ \<open>char\<close> is a HOL \<open>char\<close>, a
  \<open>std::string\<close> or \<open>std::string_view\<close> is the list of its bytes.\<close>

abbreviation dquote :: char where "dquote \<equiv> CHR 0x22"
abbreviation newline :: char where "newline \<equiv> CHR 0x0A"
abbreviation cret :: char where "cret \<equiv> CHR 0x0D"
abbreviation tab :: char where "tab \<equiv> CHR 0x09"
abbreviation space :: char where "space \<equiv> CHR 0x20"
abbreviation comma :: char where "comma \<equiv> CHR 0x2C"

section \<open>csv\_reader.cpp: unquote\<close>

text \<open>The loop of \<open>unquote\<close> over the field without its first and last byte: a quote
  followed by a quote gives one quote and skips both, any other byte is copied.\<close>

fun unescape :: "string \<Rightarrow> string" where
  "unescape [] = []"
| "unescape [c] = [c]"
| "unescape (c # d # cs) =
     (if c = dquote \<and> d = dquote then dquote # unescape cs
      else c # unescape (d # cs))"

definition unquote :: "string \<Rightarrow> string" where
  "unquote field =
     (if length field \<ge> 2 \<and> hd field = dquote \<and> last field = dquote
      then unescape (butlast (tl field))
      else field)"

text \<open>Modelled from the spec: \<open>quoteField\<close> is no function of the repository; the
  specification describes it as wrapping the text in double quotes and doubling every
  embedded double quote.\<close>

fun double_quotes :: "string \<Rightarrow> string" where
  "double_quotes [] = []"
| "double_quotes (c # cs) =
     (if c = dquote then dquote # dquote # double_quotes cs else c # double_quotes cs)"

definition quoteField :: "string \<Rightarrow> string" where
  "quoteField x = dquote # double_quotes x @ [dquote]"

section \<open>csv\_reader.cpp: line ends\<close>

text \<open>\<open>memchr (base + off, c, n)\<close>: the offset in \<open>base\<close> of the first byte \<open>c\<close> among the
  \<open>n\<close> bytes from \<open>off\<close>, or nothing (the null pointer).\<close>

definition memchr :: "string \<Rightarrow> nat \<Rightarrow> char \<Rightarrow> nat \<Rightarrow> nat option" where
  "memchr base off c n =
     (let s = take n (drop off base)
      in if c \<in> set s then Some (off + length (takeWhile (\<lambda>x. x \<noteq> c) s)) else None)"

text \<open>The quote-aware scan: every quote byte toggles \<open>in_quotes\<close>; the scan stops at the
  first newline met outside quotes, or at \<open>total\<close>.\<close>

function quote_scan :: "string \<Rightarrow> nat \<Rightarrow> bool \<Rightarrow> nat \<Rightarrow> nat" where
  "quote_scan base tot in_quotes i =
     (if i < tot then
        (if base ! i = dquote then quote_scan base tot (\<not> in_quotes) (i + 1)
         else if \<not> in_quotes \<and> base ! i = newline then i
         else quote_scan base tot in_quotes (i + 1))
      else tot)"
  by pat_completeness auto
termination
  by (relation "measure (\<lambda>(base, tot, q, i). tot - i)") auto

declare quote_scan.simps [simp del]

definition find_line_end :: "string \<Rightarrow> nat \<Rightarrow> nat \<Rightarrow> nat" where
  "find_line_end base tot start =
     (let nl_pos = (case memchr base start newline (tot - start) of
                      Some p \<Rightarrow> p | None \<Rightarrow> tot)
      in case memchr base start dquote (nl_pos - start) of
           None \<Rightarrow> nl_pos
         | Some q \<Rightarrow> quote_scan base tot False start)"

text \<open>The end of the line's content: a carriage return just before the boundary is left
  out. \<open>parse_header\<close> tests \<open>actual_end > 0\<close>, the body loops \<open>actual_end > pos\<close>.\<close>

definition trim_cr :: "string \<Rightarrow> nat \<Rightarrow> nat \<Rightarrow> nat" where
  "trim_cr base pos line_end =
     (if line_end > pos \<and> base ! (line_end - 1) = cret then line_end - 1 else line_end)"

definition next_pos :: "nat \<Rightarrow> nat \<Rightarrow> nat" where
  "next_pos tot line_end = (if line_end < tot then line_end + 1 else tot)"

section \<open>csv\_reader.cpp: fields\<close>

text \<open>A field view \<open>string_view (base + fs, n)\<close> is modelled by the bytes it denotes; the
  default-constructed view is the empty string.\<close>

definition view :: "string \<Rightarrow> nat \<Rightarrow> nat \<Rightarrow> string" where
  "view base fs n = take n (drop fs base)"

text \<open>Inside a quoted field, from the byte after the opening quote: a doubled quote is
  skipped, the loop breaks at a quote that is not doubled, or runs to \<open>end\<close>.\<close>

function quoted_end :: "string \<Rightarrow> nat \<Rightarrow> nat \<Rightarrow> nat" where
  "quoted_end base fin i =
     (if i < fin then
        (if base ! i = dquote then
           (if i + 1 < fin \<and> base ! (i + 1) = dquote then quoted_end base fin (i + 2)
            else i)
         else quoted_end base fin (i + 1))
      else i)"
  by pat_completeness auto
termination
  by (relation "measure (\<lambda>(base, fin, i). fin - i)") auto

declare quoted_end.simps [simp del]

function unquoted_end :: "string \<Rightarrow> nat \<Rightarrow> char \<Rightarrow> nat \<Rightarrow> nat" where
  "unquoted_end base fin delim i =
     (if i < fin \<and> base ! i \<noteq> delim then unquoted_end base fin delim (i + 1) else i)"
  by pat_completeness auto
termination
  by (relation "measure (\<lambda>(base, fin, delim, i). fin - i)") auto

declare unquoted_end.simps [simp del]

text \<open>One turn of the field loop, which \<open>parse_line_fields\<close> and \<open>append_row_fields\<close>
  both spell out with the same text: the field that starts at \<open>i\<close> and the offset after
  it and its separator.\<close>

definition next_field :: "string \<Rightarrow> nat \<Rightarrow> char \<Rightarrow> nat \<Rightarrow> string \<times> nat" where
  "next_field base fin delim i =
     (if base ! i = dquote then
        (let j = quoted_end base fin (i + 1);
             k = (if j < fin then j + 1 else j)
         in (view base i (k - i), if k < fin \<and> base ! k = delim then k + 1 else k))
      else
        (let j = unquoted_end base fin delim i
         in (view base i (j - i), if j < fin then j + 1 else j)))"

lemma quoted_end_ge: "i \<le> quoted_end base fin i"
proof (induction base fin i rule: quoted_end.induct)
  case (1 base e i)
  show ?case
  proof (cases "i < e")
    case False
    then show ?thesis by (simp add: quoted_end.simps)
  next
    case lt: True
    show ?thesis
    proof (cases "base ! i = dquote")
      case False
      with lt "1.IH"(2) have "i + 1 \<le> quoted_end base e (i + 1)" by simp
      with lt False show ?thesis by (subst quoted_end.simps) simp
    next
      case q: True
      show ?thesis
      proof (cases "i + 1 < e \<and> base ! (i + 1) = dquote")
        case True
        with lt q "1.IH"(1) have "i + 2 \<le> quoted_end base e (i + 2)" by simp
        with lt q True show ?thesis by (subst quoted_end.simps) simp
      next
        case False
        with lt q show ?thesis by (subst quoted_end.simps) auto
      qed
    qed
  qed
qed

lemma unquoted_end_ge: "i \<le> unquoted_end base fin delim i"
proof (induction base fin delim i rule: unquoted_end.induct)
  case (1 base e delim i)
  show ?case
  proof (cases "i < e \<and> base ! i \<noteq> delim")
    case True
    with "1.IH" have "i + 1 \<le> unquoted_end base e delim (i + 1)" by simp
    with True show ?thesis by (subst unquoted_end.simps) simp
  next
    case False
    then show ?thesis by (subst unquoted_end.simps) auto
  qed
qed

lemma next_field_progress: "i < fin \<Longrightarrow> i < snd (next_field base fin delim i)"
proof -
  assume lt: "i < fin"
  show ?thesis
  proof (cases "base ! i = dquote")
    case True
    have "i + 1 \<le> quoted_end base fin (i + 1)" by (rule quoted_end_ge)
    with True show ?thesis by (auto simp: next_field_def Let_def)
  next
    case False
    have "i \<le> unquoted_end base fin delim i" by (rule unquoted_end_ge)
    with False lt show ?thesis by (auto simp: next_field_def Let_def)
  qed
qed

function plf_loop :: "string \<Rightarrow> nat \<Rightarrow> char \<Rightarrow> nat \<Rightarrow> string list \<Rightarrow> string list" where
  "plf_loop base fin delim i fields =
     (if i < fin then
        plf_loop base fin delim (snd (next_field base fin delim i))
                 (fields @ [fst (next_field base fin delim i)])
      else fields)"
  by pat_completeness auto
termination
  by (relation "measure (\<lambda>(base, fin, delim, i, fields). fin - i)")
     (auto intro: diff_less_mono2 next_field_progress)

declare plf_loop.simps [simp del]

definition parse_line_fields :: "string \<Rightarrow> nat \<Rightarrow> nat \<Rightarrow> char \<Rightarrow> string list" where
  "parse_line_fields base start fin delim =
     (if start = fin then []
      else plf_loop base fin delim start []
           @ (if fin > start \<and> base ! (fin - 1) = delim then [view base fin 0] else []))"

text \<open>The field loop of \<open>append_row_fields\<close>: it stops at the end of the line or once
  \<open>ncols\<close> fields were added. It returns \<open>fields_added\<close> and the flat store.\<close>

function arf_loop ::
  "string \<Rightarrow> nat \<Rightarrow> char \<Rightarrow> nat \<Rightarrow> nat \<Rightarrow> nat \<Rightarrow> string list \<Rightarrow> nat \<times> string list" where
  "arf_loop base fin delim ncols i added fields =
     (if i < fin \<and> added < ncols then
        arf_loop base fin delim ncols (snd (next_field base fin delim i)) (added + 1)
                 (fields @ [fst (next_field base fin delim i)])
      else (added, fields))"
  by pat_completeness auto
termination
  by (relation "measure (\<lambda>(base, fin, delim, ncols, i, added, fields). fin - i)")
     (auto intro: diff_less_mono2 next_field_progress)

declare arf_loop.simps [simp del]

function pad_row :: "nat \<Rightarrow> nat \<Rightarrow> string list \<Rightarrow> string list" where
  "pad_row ncols added fields =
     (if added < ncols then pad_row ncols (added + 1) (fields @ [[]]) else fields)"
  by pat_completeness auto
termination
  by (relation "measure (\<lambda>(ncols, added, fields). ncols - added)") auto

declare pad_row.simps [simp del]

definition append_row_fields ::
  "string \<Rightarrow> nat \<Rightarrow> nat \<Rightarrow> char \<Rightarrow> nat \<Rightarrow> string list \<Rightarrow> string list" where
  "append_row_fields base start fin delim ncols fields =
     (case arf_loop base fin delim ncols start 0 fields of
        (added, fs) \<Rightarrow>
          if added < ncols \<and> fin > start \<and> base ! (fin - 1) = delim
          then pad_row ncols (added + 1) (fs @ [[]])
          else pad_row ncols added fs)"

section \<open>csv\_reader.cpp: counting the rows of the remainder\<close>

type_synonym u8 = "8 word"

text \<open>The NEON intrinsics, on vectors of 16 lanes of 8 bits: \<open>vaddq_u8\<close> adds lane by
  lane and wraps in each lane, \<open>vceqq_u8\<close> sets all bits of a lane where the operands
  agree, and \<open>vaddvq_u8\<close> adds the 16 lanes into one 8-bit result.\<close>

definition vdupq_n_u8 :: "u8 \<Rightarrow> u8 list" where
  "vdupq_n_u8 x = replicate 16 x"

definition vld1q_u8 :: "string \<Rightarrow> nat \<Rightarrow> u8 list" where
  "vld1q_u8 d i = map (\<lambda>c. of_nat (of_char c)) (take 16 (drop i d))"

definition vceqq_u8 :: "u8 list \<Rightarrow> u8 list \<Rightarrow> u8 list" where
  "vceqq_u8 a b = map2 (\<lambda>x y. if x = y then 0xFF else 0) a b"

definition vandq_u8 :: "u8 list \<Rightarrow> u8 list \<Rightarrow> u8 list" where
  "vandq_u8 a b = map2 (\<lambda>x y. and x y) a b"

definition vaddq_u8 :: "u8 list \<Rightarrow> u8 list \<Rightarrow> u8 list" where
  "vaddq_u8 a b = map2 (\<lambda>x y. x + y) a b"

definition vaddvq_u8 :: "u8 list \<Rightarrow> u8" where
  "vaddvq_u8 a = sum_list a"

text \<open>The inner \<open>for\<close> loop of one batch: \<open>j\<close> counts up to \<open>batch\<close>, \<open>i\<close> advances by 16.\<close>

function neon_batch :: "string \<Rightarrow> nat \<Rightarrow> nat \<Rightarrow> nat \<Rightarrow> u8 list \<Rightarrow> nat \<times> u8 list" where
  "neon_batch d batch j i acc =
     (if j < batch then
        neon_batch d batch (j + 1) (i + 16)
          (vaddq_u8 acc (vandq_u8 (vceqq_u8 (vld1q_u8 d i) (vdupq_n_u8 0x0A)) (vdupq_n_u8 1)))
      else (i, acc))"
  by pat_completeness auto
termination
  by (relation "measure (\<lambda>(d, batch, j, i, acc). batch - j)") auto

declare neon_batch.simps [simp del]

lemma neon_batch_index: "fst (neon_batch d batch j i acc) = i + 16 * (batch - j)"
proof (induction d batch j i acc rule: neon_batch.induct)
  case (1 d batch j i acc)
  show ?case
  proof (cases "j < batch")
    case True
    with "1.IH" show ?thesis by (subst neon_batch.simps) simp
  next
    case False
    then show ?thesis by (subst neon_batch.simps) simp
  qed
qed

lemma neon_batch_advance:
  assumes "i + 16 \<le> len"
    and "(x, y) = neon_batch d (min ((len - i) div 16) 255) 0 i acc"
  shows "len - x < len - i"
proof -
  have "x = fst (neon_batch d (min ((len - i) div 16) 255) 0 i acc)"
    using assms(2) by (metis fst_conv)
  then have "x = i + 16 * min ((len - i) div 16) 255"
    by (simp add: neon_batch_index)
  moreover from assms(1) have "1 \<le> min ((len - i) div 16) 255"
    by (simp add: Suc_le_eq div_greater_zero_iff)
  ultimately have "i < x" by linarith
  with assms(1) show ?thesis by simp
qed

function neon_loop :: "string \<Rightarrow> nat \<Rightarrow> nat \<Rightarrow> nat \<Rightarrow> nat \<times> nat" where
  "neon_loop d len i count =
     (if i + 16 \<le> len then
        (case neon_batch d (min ((len - i) div 16) 255) 0 i (vdupq_n_u8 0) of
           (i', acc) \<Rightarrow> neon_loop d len i' (count + unat (vaddvq_u8 acc)))
      else (i, count))"
  by pat_completeness auto
termination
  by (relation "measure (\<lambda>(d, len, i, count). len - i)")
     (auto intro: neon_batch_advance)

declare neon_loop.simps [simp del]

text \<open>The scalar loop, over the bytes from \<open>i\<close> to \<open>len\<close>.\<close>

fun scalar_newlines :: "string \<Rightarrow> nat \<Rightarrow> nat" where
  "scalar_newlines [] count = count"
| "scalar_newlines (c # cs) count =
     scalar_newlines cs (if c = newline then count + 1 else count)"

text \<open>\<open>count_newlines\<close>; the flag says whether the build defines \<open>__ARM_NEON\<close>.\<close>

definition count_newlines :: "bool \<Rightarrow> string \<Rightarrow> nat \<Rightarrow> nat" where
  "count_newlines neon d len =
     (case (if neon then neon_loop d len 0 0 else (0, 0)) of
        (i, count) \<Rightarrow> scalar_newlines (take (len - i) (drop i d)) count)"

text \<open>The quote-aware count of the slow path.\<close>

fun quoted_newlines :: "string \<Rightarrow> bool \<Rightarrow> nat \<Rightarrow> nat" where
  "quoted_newlines [] in_quotes count = count"
| "quoted_newlines (c # cs) in_quotes count =
     (if c = dquote then quoted_newlines cs (\<not> in_quotes) count
      else if \<not> in_quotes \<and> c = newline then quoted_newlines cs in_quotes (count + 1)
      else quoted_newlines cs in_quotes count)"

definition count_rows_from :: "bool \<Rightarrow> string \<Rightarrow> nat \<Rightarrow> nat" where
  "count_rows_from neon base offset =
     (if offset \<ge> length base then 0
      else
        (let d = drop offset base; len = length base - offset
         in if len = 0 then 0
            else if memchr d 0 dquote len = None then
              (let nl = count_newlines neon d len
               in if d ! (len - 1) \<noteq> newline then nl + 1 else nl)
            else
              (let count = quoted_newlines (take len d) False 0
               in if len > 0 \<and> d ! (len - 1) \<noteq> newline then count + 1 else count)))"

section \<open>csv\_reader.cpp: the reader\<close>

text \<open>The state of a \<open>CsvReader\<close>: the bytes it owns (\<open>file_size_\<close> is their number)
  and what a parse fills in.\<close>

text \<open>(\<open>flat_fields\<close> is the member \<open>fields_\<close>: flat, row-major, stride \<open>ncols_\<close>.)\<close>

record reader =
  contents :: string
  headers :: "string list"
  flat_fields :: "string list"
  ncols :: nat
  parsed_rows :: nat
  total_rows :: nat

definition row_count :: "reader \<Rightarrow> nat" where
  "row_count r = parsed_rows r"

definition column_count :: "reader \<Rightarrow> nat" where
  "column_count r = ncols r"

text \<open>\<open>row (i)\<close> is the span of \<open>ncols_\<close> views from position \<open>i * ncols_\<close> of the store.\<close>

definition row :: "reader \<Rightarrow> nat \<Rightarrow> string list" where
  "row r i = take (ncols r) (drop (i * ncols r) (flat_fields r))"

text \<open>\<open>parse_header\<close> returns the offset of the first body line with the reader.\<close>

definition parse_header :: "reader \<Rightarrow> char \<Rightarrow> nat \<times> reader" where
  "parse_header r delimiter =
     (if contents r = [] then (0, r)
      else
        (let base = contents r;
             line_end = find_line_end base (length base) 0;
             actual_end = trim_cr base 0 line_end;
             hs = parse_line_fields base 0 actual_end delimiter
         in (next_pos (length base) line_end, r\<lparr>headers := hs, ncols := length hs\<rparr>)))"

lemma memchr_ge: "memchr base off c n = Some p \<Longrightarrow> off \<le> p"
  by (auto simp: memchr_def Let_def split: if_splits)

lemma quote_scan_ge: "i \<le> tot \<Longrightarrow> i \<le> quote_scan base tot q i"
proof (induction base tot q i rule: quote_scan.induct)
  case (1 base tot q i)
  show ?case
  proof (cases "i < tot")
    case False
    with "1.prems" show ?thesis by (subst quote_scan.simps) simp
  next
    case lt: True
    show ?thesis
    proof (cases "base ! i = dquote")
      case True
      with lt "1.IH"(1) have "i + 1 \<le> quote_scan base tot (\<not> q) (i + 1)" by simp
      with lt True show ?thesis by (subst quote_scan.simps) simp
    next
      case nq: False
      show ?thesis
      proof (cases "\<not> q \<and> base ! i = newline")
        case True
        with lt nq show ?thesis by (subst quote_scan.simps) simp
      next
        case False
        with lt nq "1.IH"(2) have "i + 1 \<le> quote_scan base tot q (i + 1)" by simp
        with lt nq False show ?thesis by (subst quote_scan.simps) auto
      qed
    qed
  qed
qed

lemma find_line_end_ge: "start \<le> tot \<Longrightarrow> start \<le> find_line_end base tot start"
  by (auto simp: find_line_end_def Let_def quote_scan_ge dest: memchr_ge split: option.splits)

lemma next_pos_progress:
  "pos < tot \<Longrightarrow> tot - next_pos tot (find_line_end base tot pos) < tot - pos"
  using find_line_end_ge [of pos tot base] by (auto simp: next_pos_def)

text \<open>The body loop of \<open>parse\<close>, on the store and the number of parsed rows.\<close>

function parse_loop ::
  "string \<Rightarrow> char \<Rightarrow> nat \<Rightarrow> nat \<Rightarrow> string list \<Rightarrow> nat \<Rightarrow> string list \<times> nat" where
  "parse_loop base delimiter nc pos flds rows =
     (if pos < length base then
        (if trim_cr base pos (find_line_end base (length base) pos) = pos then
           parse_loop base delimiter nc
             (next_pos (length base) (find_line_end base (length base) pos)) flds rows
         else
           parse_loop base delimiter nc
             (next_pos (length base) (find_line_end base (length base) pos))
             (append_row_fields base pos
                (trim_cr base pos (find_line_end base (length base) pos)) delimiter nc flds)
             (rows + 1))
      else (flds, rows))"
  by pat_completeness auto
termination
  by (relation "measure (\<lambda>(base, delimiter, nc, pos, flds, rows). length base - pos)")
     (auto intro: next_pos_progress)

declare parse_loop.simps [simp del]

definition parse :: "reader \<Rightarrow> char \<Rightarrow> reader" where
  "parse r0 delimiter =
     (let r1 = r0\<lparr>headers := [], flat_fields := [], parsed_rows := 0, total_rows := 0, ncols := 0\<rparr>
      in case parse_header r1 delimiter of
           (pos, r2) \<Rightarrow>
             if ncols r2 = 0 then r2
             else
               (case parse_loop (contents r2) delimiter (ncols r2) pos (flat_fields r2) (parsed_rows r2) of
                  (flds, rows) \<Rightarrow> r2\<lparr>flat_fields := flds, parsed_rows := rows, total_rows := rows\<rparr>))"

text \<open>The body loop of \<open>parse_head\<close> also stops once \<open>max_rows\<close> rows are parsed; the
  offset it stopped at goes to \<open>count_rows_from\<close>.\<close>

function parse_head_loop ::
  "string \<Rightarrow> char \<Rightarrow> nat \<Rightarrow> nat \<Rightarrow> nat \<Rightarrow> string list \<Rightarrow> nat \<Rightarrow> string list \<times> nat \<times> nat" where
  "parse_head_loop base delimiter nc max_rows pos flds rows =
     (if pos < length base \<and> rows < max_rows then
        (if trim_cr base pos (find_line_end base (length base) pos) = pos then
           parse_head_loop base delimiter nc max_rows
             (next_pos (length base) (find_line_end base (length base) pos)) flds rows
         else
           parse_head_loop base delimiter nc max_rows
             (next_pos (length base) (find_line_end base (length base) pos))
             (append_row_fields base pos
                (trim_cr base pos (find_line_end base (length base) pos)) delimiter nc flds)
             (rows + 1))
      else (flds, rows, pos))"
  by pat_completeness auto
termination
  by (relation "measure (\<lambda>(base, delimiter, nc, max_rows, pos, flds, rows). length base - pos)")
     (auto intro: next_pos_progress)

declare parse_head_loop.simps [simp del]

definition parse_head :: "bool \<Rightarrow> reader \<Rightarrow> char \<Rightarrow> nat \<Rightarrow> reader" where
  "parse_head neon r0 delimiter max_rows =
     (let r1 = r0\<lparr>headers := [], flat_fields := [], parsed_rows := 0, total_rows := 0, ncols := 0\<rparr>
      in case parse_header r1 delimiter of
           (pos, r2) \<Rightarrow>
             if ncols r2 = 0 then r2
             else
               (case parse_head_loop (contents r2) delimiter (ncols r2) max_rows pos
                       (flat_fields r2) (parsed_rows r2) of
                  (flds, rows, pos') \<Rightarrow>
                    r2\<lparr>flat_fields := flds, parsed_rows := rows,
                       total_rows := rows + count_rows_from neon (contents r2) pos'\<rparr>))"

text \<open>A reader as the constructor leaves it, on the given bytes.\<close>

definition load :: "string \<Rightarrow> reader" where
  "load bs = \<lparr>contents = bs, headers = [], flat_fields = [], ncols = 0, parsed_rows = 0,
              total_rows = 0\<rparr>"

section \<open>type\_inference.cpp\<close>

datatype ColumnType = Int64 | Float64 | Date | Currency | Bool | Enum | Text

record ColumnSchema =
  s_name :: string
  s_type :: ColumnType

text \<open>The test \<open>c >= '0' && c <= '9'\<close> (and its negation \<open>c < '0' || c > '9'\<close>), on the
  byte's value.\<close>

definition is_digit :: "char \<Rightarrow> bool" where
  "is_digit c = (48 \<le> (of_char c :: nat) \<and> (of_char c :: nat) \<le> 57)"

definition is_sign :: "char \<Rightarrow> bool" where
  "is_sign c = (c = CHR ''-'' \<or> c = CHR ''+'')"

definition is_int64 :: "string \<Rightarrow> bool" where
  "is_int64 s =
     (if s = [] then False
      else
        (let i = (if is_sign (s ! 0) then 1 else 0 :: nat)
         in if i = length s then False else list_all is_digit (drop i s)))"

text \<open>The loop of \<open>is_float64\<close> over the bytes after the sign, with \<open>has_dot\<close> and
  \<open>has_digit\<close>; at an exponent marker the rest is decided at once.\<close>

fun float_scan :: "string \<Rightarrow> bool \<Rightarrow> bool \<Rightarrow> bool" where
  "float_scan [] has_dot has_digit = (has_digit \<and> has_dot)"
| "float_scan (c # cs) has_dot has_digit =
     (if c = CHR ''.'' then (if has_dot then False else float_scan cs True has_digit)
      else if is_digit c then float_scan cs has_dot True
      else if c = CHR ''e'' \<or> c = CHR ''E'' then
        (if \<not> has_digit then False
         else
           (let r = (case cs of [] \<Rightarrow> [] | x # xs \<Rightarrow> if x = CHR ''+'' \<or> x = CHR ''-'' then xs else cs)
            in if r = [] then False else list_all is_digit r))
      else False)"

definition is_float64 :: "string \<Rightarrow> bool" where
  "is_float64 s =
     (if s = [] then False
      else
        (let i = (if is_sign (s ! 0) then 1 else 0 :: nat)
         in if i = length s then False else float_scan (drop i s) False False))"

definition is_date :: "string \<Rightarrow> bool" where
  "is_date s =
     (if length s < 8 \<or> length s > 10 then False
      else if length s = 10 \<and> (s ! 4 = CHR ''-'' \<or> s ! 4 = CHR ''/'')
              \<and> (s ! 7 = CHR ''-'' \<or> s ! 7 = CHR ''/'')
      then list_all (\<lambda>i. is_digit (s ! i)) [0, 1, 2, 3, 5, 6, 8, 9]
      else if length s = 10 \<and> (s ! 2 = CHR ''/'' \<or> s ! 2 = CHR ''-'')
              \<and> (s ! 5 = CHR ''/'' \<or> s ! 5 = CHR ''-'')
      then list_all (\<lambda>i. is_digit (s ! i)) [0, 1, 3, 4, 6, 7, 8, 9]
      else False)"

fun currency_scan :: "string \<Rightarrow> bool \<Rightarrow> bool \<Rightarrow> bool" where
  "currency_scan [] has_digit has_dot = has_digit"
| "currency_scan (c # cs) has_digit has_dot =
     (if is_digit c then currency_scan cs True has_dot
      else if c = comma then currency_scan cs has_digit has_dot
      else if c = CHR ''.'' then (if has_dot then False else currency_scan cs has_digit True)
      else False)"

definition is_currency :: "string \<Rightarrow> bool" where
  "is_currency s =
     (if length s < 2 then False
      else
        (let i = (if s ! 0 = CHR ''$'' \<or> s ! 0 = CHR 0xC2
                  then (if 1 < length s \<and> (s ! 1 = CHR 0xA3 \<or> s ! 1 = CHR 0xA5) then 2 else 1)
                  else 0 :: nat)
         in if i = length s then False
            else
              (let j = (if is_sign (s ! i) then i + 1 else i)
               in currency_scan (drop j s) False False \<and> s ! 0 = CHR ''$'')))"

text \<open>\<open>c >= 'A' && c <= 'Z' ? c + 32 : c\<close>, byte by byte.\<close>

definition lower_char :: "char \<Rightarrow> char" where
  "lower_char c =
     (if 65 \<le> (of_char c :: nat) \<and> (of_char c :: nat) \<le> 90
      then char_of ((of_char c :: nat) + 32) else c)"

definition to_lower :: "string \<Rightarrow> string" where
  "to_lower s = map lower_char s"

definition is_bool :: "string \<Rightarrow> bool" where
  "is_bool s =
     (if length s < 1 \<or> length s > 5 then False
      else
        (let lower = to_lower s
         in lower = ''true'' \<or> lower = ''false'' \<or> lower = ''yes'' \<or> lower = ''no''
            \<or> lower = ''1'' \<or> lower = ''0''))"

text \<open>The sampled values of a column: the views of the first \<open>nrows\<close> rows whose unquoted
  text is not empty.\<close>

fun sample_values :: "reader \<Rightarrow> nat \<Rightarrow> nat list \<Rightarrow> string list" where
  "sample_values rd col [] = []"
| "sample_values rd col (r # rs) =
     (if col < length (row rd r) \<and> unquote (row rd r ! col) \<noteq> []
      then row rd r ! col # sample_values rd col rs
      else sample_values rd col rs)"

definition all_match :: "(string \<Rightarrow> bool) \<Rightarrow> string list \<Rightarrow> bool" where
  "all_match pred vals = list_all (\<lambda>v. pred (unquote v)) vals"

definition detect_type :: "string list \<Rightarrow> ColumnType" where
  "detect_type vals =
     (if all_match is_bool vals then Bool
      else if all_match is_currency vals then Currency
      else if all_match is_date vals then Date
      else if all_match is_int64 vals then Int64
      else if all_match is_float64 vals then Float64
      else if card (set (map unquote vals)) < max 2 (length vals div 10) then Enum
      else Text)"

definition infer_column :: "reader \<Rightarrow> nat \<Rightarrow> nat \<Rightarrow> ColumnSchema" where
  "infer_column rd nrows col =
     (let col_name = unquote (headers rd ! col)
      in if nrows = 0 then \<lparr>s_name = col_name, s_type = Text\<rparr>
         else
           (let vals = sample_values rd col [0..<nrows]
            in if vals = [] then \<lparr>s_name = col_name, s_type = Text\<rparr>
               else \<lparr>s_name = col_name, s_type = detect_type vals\<rparr>))"

definition infer_schema :: "reader \<Rightarrow> nat \<Rightarrow> ColumnSchema list" where
  "infer_schema rd sample_size =
     map (infer_column rd (min (row_count rd) sample_size)) [0..<column_count rd]"

text \<open>The wording of the specification for a Float64 value: an optional sign, then digits
  with at most one decimal point, at least one digit, and possibly an exponent marker
  followed by an optional sign and at least one digit.\<close>

definition strip_sign :: "string \<Rightarrow> string" where
  "strip_sign s = (case s of [] \<Rightarrow> [] | c # cs \<Rightarrow> if is_sign c then cs else s)"

definition is_exp :: "char \<Rightarrow> bool" where
  "is_exp c = (c = CHR ''e'' \<or> c = CHR ''E'')"

definition mantissa :: "string \<Rightarrow> string" where
  "mantissa s = takeWhile (\<lambda>c. \<not> is_exp c) (strip_sign s)"

definition exponent :: "string \<Rightarrow> string" where
  "exponent s = dropWhile (\<lambda>c. \<not> is_exp c) (strip_sign s)"

definition float_syntax :: "string \<Rightarrow> bool" where
  "float_syntax s =
     (list_all (\<lambda>c. is_digit c \<or> c = CHR ''.'') (mantissa s)
      \<and> length (filter (\<lambda>c. c = CHR ''.'') (mantissa s)) \<le> 1
      \<and> list_ex is_digit (mantissa s)
      \<and> (exponent s = []
         \<or> (strip_sign (tl (exponent s)) \<noteq> [] \<and> list_all is_digit (strip_sign (tl (exponent s))))))"

text \<open>What \<open>float_scan\<close> decides from a state \<open>has_dot\<close>, \<open>has_digit\<close>, said with
  the mantissa and the exponent of the remaining bytes.\<close>

definition scan_spec :: "string \<Rightarrow> bool \<Rightarrow> bool \<Rightarrow> bool" where
  "scan_spec cs has_dot has_digit =
    (list_all (\<lambda>c. is_digit c \<or> c = CHR ''.'') (takeWhile (\<lambda>c. \<not> is_exp c) cs)
     \<and> length (filter (\<lambda>c. c = CHR ''.'') (takeWhile (\<lambda>c. \<not> is_exp c) cs))
         + (if has_dot then 1 else 0) \<le> 1
     \<and> (has_digit \<or> list_ex is_digit (takeWhile (\<lambda>c. \<not> is_exp c) cs))
     \<and> (if dropWhile (\<lambda>c. \<not> is_exp c) cs = []
         then has_dot \<or> CHR ''.'' \<in> set (takeWhile (\<lambda>c. \<not> is_exp c) cs)
         else strip_sign (tl (dropWhile (\<lambda>c. \<not> is_exp c) cs)) \<noteq> []
              \<and> list_all is_digit (strip_sign (tl (dropWhile (\<lambda>c. \<not> is_exp c) cs)))))"

section \<open>filter.cpp\<close>

datatype FilterOp = Eq | Neq | Gt | Lt | Gte | Lte | Contains | StartsWith | EndsWith

record Filter =
  f_column :: string
  f_op :: FilterOp
  f_value :: string

text \<open>The exceptions of the query layer (\<open>std::runtime_error\<close> with two kinds of message):
  an unknown column, with the name asked for and the unquoted headers, and an empty
  selection.\<close>

datatype error = UnknownColumn string "string list" | NoColumnsSelected

text \<open>A \<open>double\<close> as far as comparisons see it: a finite value, an infinity, or not a
  number. \<open>std::stod\<close> belongs to the C++ library and is a parameter of the model: it gives
  the parsed value, or nothing where it throws.\<close>

datatype double = Finite real | PosInf | NegInf | NaN

fun d_eq :: "double \<Rightarrow> double \<Rightarrow> bool" where
  "d_eq (Finite a) (Finite b) = (a = b)"
| "d_eq PosInf PosInf = True"
| "d_eq NegInf NegInf = True"
| "d_eq _ _ = False"

fun d_lt :: "double \<Rightarrow> double \<Rightarrow> bool" where
  "d_lt (Finite a) (Finite b) = (a < b)"
| "d_lt (Finite a) PosInf = True"
| "d_lt NegInf (Finite b) = True"
| "d_lt NegInf PosInf = True"
| "d_lt _ _ = False"

definition parse_numeric :: "(string \<Rightarrow> double option) \<Rightarrow> string \<Rightarrow> double option" where
  "parse_numeric stod s = stod (filter (\<lambda>c. \<not> (c = CHR ''$'' \<or> c = comma)) s)"

definition is_numeric_type :: "ColumnType \<Rightarrow> bool" where
  "is_numeric_type t = (t = Int64 \<or> t = Float64 \<or> t = Currency)"

text \<open>\<open>ci ? to_lower (s) : s\<close>, as \<open>compare_strings\<close> and \<open>apply_filters\<close> write it.\<close>

definition fold_name :: "bool \<Rightarrow> string \<Rightarrow> string" where
  "fold_name ci s = (if ci then to_lower s else s)"

text \<open>\<open>std::string\<close> compares byte by byte, the bytes as unsigned values.\<close>

fun str_less :: "string \<Rightarrow> string \<Rightarrow> bool" where
  "str_less [] [] = False"
| "str_less [] (y # ys) = True"
| "str_less (x # xs) [] = False"
| "str_less (x # xs) (y # ys) =
     (if (of_char x :: nat) < of_char y then True
      else if (of_char y :: nat) < of_char x then False
      else str_less xs ys)"

text \<open>\<open>a.find (b) != npos\<close>: \<open>b\<close> starts at some position of \<open>a\<close>.\<close>

fun str_find :: "string \<Rightarrow> string \<Rightarrow> bool" where
  "str_find [] b = (b = [])"
| "str_find (x # xs) b = (take (length b) (x # xs) = b \<or> str_find xs b)"

definition compare_strings :: "string \<Rightarrow> FilterOp \<Rightarrow> string \<Rightarrow> bool \<Rightarrow> bool" where
  "compare_strings cell opr val ci =
     (let a = fold_name ci cell;
          b = fold_name ci val
      in case opr of
           Eq \<Rightarrow> a = b
         | Neq \<Rightarrow> a \<noteq> b
         | Gt \<Rightarrow> str_less b a
         | Lt \<Rightarrow> str_less a b
         | Gte \<Rightarrow> \<not> str_less a b
         | Lte \<Rightarrow> \<not> str_less b a
         | Contains \<Rightarrow> str_find a b
         | StartsWith \<Rightarrow> length a \<ge> length b \<and> take (length b) a = b
         | EndsWith \<Rightarrow> length a \<ge> length b \<and> drop (length a - length b) a = b)"

definition compare_numeric :: "double \<Rightarrow> FilterOp \<Rightarrow> double \<Rightarrow> bool" where
  "compare_numeric cell_val opr filter_val =
     (case opr of
        Eq \<Rightarrow> d_eq cell_val filter_val
      | Neq \<Rightarrow> \<not> d_eq cell_val filter_val
      | Gt \<Rightarrow> d_lt filter_val cell_val
      | Lt \<Rightarrow> d_lt cell_val filter_val
      | Gte \<Rightarrow> d_lt filter_val cell_val \<or> d_eq cell_val filter_val
      | Lte \<Rightarrow> d_lt cell_val filter_val \<or> d_eq cell_val filter_val
      | Contains \<Rightarrow> False
      | StartsWith \<Rightarrow> False
      | EndsWith \<Rightarrow> False)"

text \<open>\<open>row_matches\<close>: the \<open>try\<close> block returns the numeric comparison when both calls of
  \<open>parse_numeric\<close> return; when either throws, \<open>catch (...)\<close> swallows the exception
  and the string comparison below the block decides.\<close>

definition row_matches ::
  "(string \<Rightarrow> double option) \<Rightarrow> string list \<Rightarrow> Filter \<Rightarrow> nat \<Rightarrow> ColumnType \<Rightarrow> bool \<Rightarrow> bool" where
  "row_matches stod rw flt col_idx col_type ci =
     (if col_idx \<ge> length rw then False
      else
        (let cell_str = unquote (rw ! col_idx)
         in if is_numeric_type col_type \<and> f_op flt \<noteq> Contains \<and> f_op flt \<noteq> StartsWith
               \<and> f_op flt \<noteq> EndsWith
            then
              (case parse_numeric stod cell_str of
                 None \<Rightarrow> compare_strings cell_str (f_op flt) (f_value flt) ci
               | Some cell_val \<Rightarrow>
                   (case parse_numeric stod (f_value flt) of
                      None \<Rightarrow> compare_strings cell_str (f_op flt) (f_value flt) ci
                    | Some filter_val \<Rightarrow> compare_numeric cell_val (f_op flt) filter_val))
            else compare_strings cell_str (f_op flt) (f_value flt) ci))"

text \<open>The search of a name among the headers, from index \<open>i\<close>: the first header whose
  unquoted text (lower-cased when \<open>ci\<close>) is the name.\<close>

fun find_header :: "string list \<Rightarrow> bool \<Rightarrow> string \<Rightarrow> nat \<Rightarrow> nat option" where
  "find_header [] ci f_col i = None"
| "find_header (h # hs) ci f_col i =
     (if fold_name ci (unquote h) = f_col then Some i
      else find_header hs ci f_col (i + 1))"

record ResolvedFilter =
  rf_filter :: Filter
  rf_col_idx :: nat
  rf_col_type :: ColumnType

fun resolve_filters ::
  "Filter list \<Rightarrow> string list \<Rightarrow> ColumnSchema list \<Rightarrow> bool \<Rightarrow> error + ResolvedFilter list" where
  "resolve_filters [] hs schema ci = Inr []"
| "resolve_filters (f # fs) hs schema ci =
     (case find_header hs ci (fold_name ci (f_column f)) 0 of
        None \<Rightarrow> Inl (UnknownColumn (f_column f) (map unquote hs))
      | Some i \<Rightarrow>
          (case resolve_filters fs hs schema ci of
             Inl e \<Rightarrow> Inl e
           | Inr rs \<Rightarrow>
               Inr (\<lparr>rf_filter = f, rf_col_idx = i,
                      rf_col_type = (if i < length schema then s_type (schema ! i) else Text)\<rparr>
                    # rs)))"

definition row_selected ::
  "(string \<Rightarrow> double option) \<Rightarrow> reader \<Rightarrow> ResolvedFilter list \<Rightarrow> bool \<Rightarrow> bool \<Rightarrow> nat \<Rightarrow> bool" where
  "row_selected stod rd resolved ci or_logic r =
     (if or_logic
      then list_ex (\<lambda>rf. row_matches stod (row rd r) (rf_filter rf) (rf_col_idx rf)
                            (rf_col_type rf) ci) resolved
      else list_all (\<lambda>rf. row_matches stod (row rd r) (rf_filter rf) (rf_col_idx rf)
                             (rf_col_type rf) ci) resolved)"

text \<open>The loop over the rows, from \<open>r\<close> up to \<open>n\<close>, pushing the matching indices.\<close>

function filter_rows :: "(nat \<Rightarrow> bool) \<Rightarrow> nat \<Rightarrow> nat \<Rightarrow> nat list \<Rightarrow> nat list" where
  "filter_rows match n r result =
     (if r < n then filter_rows match n (r + 1) (if match r then result @ [r] else result)
      else result)"
  by pat_completeness auto
termination
  by (relation "measure (\<lambda>(match, n, r, result). n - r)") auto

declare filter_rows.simps [simp del]

definition apply_filters ::
  "(string \<Rightarrow> double option) \<Rightarrow> Filter list \<Rightarrow> reader \<Rightarrow> ColumnSchema list \<Rightarrow> bool \<Rightarrow> bool
   \<Rightarrow> error + nat list" where
  "apply_filters stod filters rd schema case_insensitive or_logic =
     (case resolve_filters filters (headers rd) schema case_insensitive of
        Inl e \<Rightarrow> Inl e
      | Inr resolved \<Rightarrow>
          Inr (filter_rows (row_selected stod rd resolved case_insensitive or_logic)
                 (row_count rd) 0 []))"

text \<open>\<open>std::getline (ss, token, ',')\<close> on the rest of the stream: it fails at the end of the
  stream; otherwise the token is the bytes before the next comma, which is consumed.\<close>

definition getline :: "string \<Rightarrow> char \<Rightarrow> (string \<times> string) option" where
  "getline ss delim =
     (if ss = [] then None
      else Some (takeWhile (\<lambda>c. c \<noteq> delim) ss, drop 1 (dropWhile (\<lambda>c. c \<noteq> delim) ss)))"

definition find_first_not_of :: "string \<Rightarrow> char \<Rightarrow> nat option" where
  "find_first_not_of s c =
     (if list_all (\<lambda>x. x = c) s then None else Some (length (takeWhile (\<lambda>x. x = c) s)))"

definition find_last_not_of :: "string \<Rightarrow> char \<Rightarrow> nat option" where
  "find_last_not_of s c =
     (if list_all (\<lambda>x. x = c) s then None
      else Some (length s - 1 - length (takeWhile (\<lambda>x. x = c) (rev s))))"

definition substr :: "string \<Rightarrow> nat \<Rightarrow> nat \<Rightarrow> string" where
  "substr s pos n = take n (drop pos s)"

lemma getline_shorter: "getline ss delim = Some (token, rest) \<Longrightarrow> length rest < length ss"
proof -
  assume g: "getline ss delim = Some (token, rest)"
  then have ne: "ss \<noteq> []" and r: "rest = drop 1 (dropWhile (\<lambda>c. c \<noteq> delim) ss)"
    by (auto simp: getline_def split: if_splits)
  have "length (dropWhile (\<lambda>c. c \<noteq> delim) ss) \<le> length ss"
    by (rule length_dropWhile_le)
  with ne r show ?thesis by (cases ss) auto
qed

text \<open>The loop of \<open>resolve_columns\<close> over the tokens of the stream. The source tests only
  \<open>start == npos\<close>; \<open>find_last_not_of\<close> finds nothing in exactly the same tokens
  (\<open>find_not_of_None\<close> below), so its empty case is never reached.\<close>

lemma find_not_of_None: "find_last_not_of s c = None \<longleftrightarrow> find_first_not_of s c = None"
  by (simp add: find_first_not_of_def find_last_not_of_def)

function resolve_loop :: "string list \<Rightarrow> string \<Rightarrow> nat list \<Rightarrow> error + nat list" where
  "resolve_loop hs ss indices =
     (case getline ss comma of
        None \<Rightarrow> Inr indices
      | Some (token, rest) \<Rightarrow>
          (case find_first_not_of token space of
             None \<Rightarrow> resolve_loop hs rest indices
           | Some start \<Rightarrow>
               (case find_last_not_of token space of
                  None \<Rightarrow> resolve_loop hs rest indices
                | Some fin \<Rightarrow>
                    (case find_header hs False (substr token start (fin - start + 1)) 0 of
                       Some i \<Rightarrow> resolve_loop hs rest (indices @ [i])
                     | None \<Rightarrow>
                         Inl (UnknownColumn (substr token start (fin - start + 1))
                                (map unquote hs))))))"
  by pat_completeness auto
termination
  by (relation "measure (\<lambda>(hs, ss, indices). length ss)") (auto dest: getline_shorter)

declare resolve_loop.simps [simp del]

definition resolve_columns :: "string \<Rightarrow> reader \<Rightarrow> error + nat list" where
  "resolve_columns select_str rd =
     (case resolve_loop (headers rd) select_str [] of
        Inl e \<Rightarrow> Inl e
      | Inr indices \<Rightarrow> if indices = [] then Inl NoColumnsSelected else Inr indices)"

section \<open>delim.cpp\<close>

text \<open>\<open>count_fields\<close>: one more than the number of delimiter bytes outside quotes.\<close>

fun count_fields_loop :: "string \<Rightarrow> char \<Rightarrow> bool \<Rightarrow> nat \<Rightarrow> nat" where
  "count_fields_loop [] delim in_quotes count = count"
| "count_fields_loop (c # cs) delim in_quotes count =
     (if c = dquote then count_fields_loop cs delim (\<not> in_quotes) count
      else if \<not> in_quotes \<and> c = delim then count_fields_loop cs delim in_quotes (count + 1)
      else count_fields_loop cs delim in_quotes count)"

definition count_fields :: "string \<Rightarrow> char \<Rightarrow> nat" where
  "count_fields line delim = count_fields_loop line delim False 1"

definition candidates :: "char list" where
  "candidates = [comma, tab, CHR ''|'', CHR '';'']"

record LineSpan =
  l_start :: nat
  l_len :: nat

text \<open>The sampling loop: the inner scan is the quote-aware search of the next newline; a
  line is kept when it is not empty once a trailing carriage return is dropped.\<close>

lemma next_pos_scan_progress:
  "pos < tot \<Longrightarrow> tot - next_pos tot (quote_scan base tot False pos) < tot - pos"
  using quote_scan_ge [of pos tot base False] by (auto simp: next_pos_def)

function collect_lines :: "string \<Rightarrow> nat \<Rightarrow> nat \<Rightarrow> LineSpan list \<Rightarrow> LineSpan list" where
  "collect_lines data sample_lines pos lines =
     (if pos < length data \<and> length lines < sample_lines then
        collect_lines data sample_lines
          (next_pos (length data) (quote_scan data (length data) False pos))
          (if trim_cr data pos (quote_scan data (length data) False pos) > pos
           then lines @ [\<lparr>l_start = pos,
                           l_len = trim_cr data pos (quote_scan data (length data) False pos) - pos\<rparr>]
           else lines)
      else lines)"
  by pat_completeness auto
termination
  by (relation "measure (\<lambda>(data, sample_lines, pos, lines). length data - pos)")
     (auto intro: next_pos_scan_progress)

declare collect_lines.simps [simp del]

text \<open>The arithmetic of \<open>double\<close> (IEEE binary64) on finite values: every operation gives
  the exact result rounded to the nearest value with 53 significant bits, ties to the even
  significand, with the fixed spacing of the subnormal range below \<open>2 powr - 1022\<close>. The
  values met here stay far below the overflow threshold, and the operations are taken one
  by one as the source writes them.\<close>

definition round_even :: "real \<Rightarrow> int" where
  "round_even y =
     (if y - of_int \<lfloor>y\<rfloor> < 1 / 2 then \<lfloor>y\<rfloor>
      else if y - of_int \<lfloor>y\<rfloor> > 1 / 2 then \<lfloor>y\<rfloor> + 1
      else if even \<lfloor>y\<rfloor> then \<lfloor>y\<rfloor> else \<lfloor>y\<rfloor> + 1)"

definition binade :: "real \<Rightarrow> int" where
  "binade x = max \<lfloor>log 2 \<bar>x\<bar>\<rfloor> (- 1022)"

definition rnd :: "real \<Rightarrow> real" where
  "rnd x =
     (if x = 0 then 0
      else of_int (round_even (x / 2 powr of_int (binade x - 52))) * 2 powr of_int (binade x - 52))"

text \<open>The field counts of the sampled lines for one candidate, as \<open>double\<close>s. The counts,
  their sum and the number of lines are whole numbers, which \<open>double\<close> holds exactly below
  \<open>2 ^ 53\<close>; the conversions and the sum are therefore written without rounding. The
  division that gives the mean rounds.\<close>

definition field_counts :: "string \<Rightarrow> LineSpan list \<Rightarrow> char \<Rightarrow> real list" where
  "field_counts data lines c =
     map (\<lambda>l. real (count_fields (view data (l_start l) (l_len l)) c)) lines"

definition mean_count :: "real list \<Rightarrow> real" where
  "mean_count counts = rnd (sum_list counts / real (length counts))"

text \<open>The score: the loop \<open>var += (v - mean) * (v - mean)\<close> from \<open>var = 0\<close>, then
  \<open>stddev = sqrt (var / n)\<close> and \<open>mean / (1.0 + stddev)\<close>, each operation rounded.\<close>

definition score_of :: "real list \<Rightarrow> real" where
  "score_of counts =
     (let mean = mean_count counts;
          var = foldl (\<lambda>var v. rnd (var + rnd (rnd (v - mean) * rnd (v - mean)))) 0 counts;
          stddev = rnd (sqrt (rnd (var / real (length counts))))
      in rnd (mean / rnd (1 + stddev)))"

text \<open>One turn of the loop over the candidates, on the pair \<open>(best, best_score)\<close>.\<close>

definition candidate_step :: "string \<Rightarrow> LineSpan list \<Rightarrow> char \<times> real \<Rightarrow> char \<Rightarrow> char \<times> real" where
  "candidate_step data lines st c =
     (let counts = field_counts data lines c
      in if mean_count counts < 2 then st
         else if score_of counts > snd st then (c, score_of counts)
         else st)"

definition detect_delimiter :: "string \<Rightarrow> nat \<Rightarrow> char" where
  "detect_delimiter data sample_lines =
     (if data = [] then comma
      else
        (let lines = collect_lines data sample_lines 0 []
         in if lines = [] then comma
            else fst (foldl (candidate_step data lines) (comma, - 1) candidates)))"

section \<open>Example inputs\<close>

text \<open>A stand-in for \<open>std::stod\<close> that parses three literals and throws on anything else,
  a file with a column of three ages, and a file whose column holds an amount with a
  \<open>$\<close>, a word, a plain number and a quoted number with a comma.\<close>

definition example_stod :: "string \<Rightarrow> double option" where
  "example_stod s =
     (if s = ''30'' then Some (Finite 30)
      else if s = ''25'' then Some (Finite 25)
      else if s = ''35'' then Some (Finite 35)
      else None)"

definition ages_csv :: reader where
  "ages_csv = parse (load (''age'' @ [newline] @ ''30'' @ [newline] @ ''25'' @ [newline]
                            @ ''35'' @ [newline])) comma"

definition mixed_csv :: reader where
  "mixed_csv = parse (load (''age'' @ [newline] @ ''$35'' @ [newline] @ ''abc'' @ [newline]
                             @ ''25'' @ [newline] @ [dquote] @ ''3,5'' @ [dquote] @ [newline])) comma"

section \<open>The flat store keeps its stride\<close>

lemma plf_loop_step:
  "i < fin \<Longrightarrow> plf_loop base fin delim i acc =
     plf_loop base fin delim (snd (next_field base fin delim i)) (acc @ [fst (next_field base fin delim i)])"
  by (subst plf_loop.simps) simp

lemma plf_loop_stop: "\<not> i < fin \<Longrightarrow> plf_loop base fin delim i acc = acc"
  by (subst plf_loop.simps) simp

lemma arf_loop_step:
  "i < fin \<Longrightarrow> added < nc \<Longrightarrow> arf_loop base fin delim nc i added acc =
     arf_loop base fin delim nc (snd (next_field base fin delim i)) (added + 1)
       (acc @ [fst (next_field base fin delim i)])"
  by (subst arf_loop.simps) simp

lemma arf_loop_stop:
  "\<not> (i < fin \<and> added < nc) \<Longrightarrow> arf_loop base fin delim nc i added acc = (added, acc)"
  by (subst arf_loop.simps) auto

lemma plf_loop_acc: "plf_loop base fin delim i acc = acc @ plf_loop base fin delim i []"
proof (induction "fin - i" arbitrary: i acc rule: less_induct)
  case less
  show ?case
  proof (cases "i < fin")
    case True
    let ?j = "snd (next_field base fin delim i)"
    let ?f = "fst (next_field base fin delim i)"
    have lt: "fin - ?j < fin - i"
      using next_field_progress [OF True, of base delim] True by (simp add: diff_less_mono2)
    show ?thesis
      using less [OF lt, of "acc @ [?f]"] less [OF lt, of "[?f]"]
      by (simp add: plf_loop_step [OF True])
  next
    case False
    then show ?thesis by (simp add: plf_loop_stop)
  qed
qed

lemma arf_loop_plf:
  "added \<le> nc \<Longrightarrow>
   arf_loop base fin delim nc i added acc =
     (added + min (nc - added) (length (plf_loop base fin delim i [])),
      acc @ take (nc - added) (plf_loop base fin delim i []))"
proof (induction "fin - i" arbitrary: i added acc rule: less_induct)
  case less
  show ?case
  proof (cases "i < fin")
    case False
    then show ?thesis by (simp add: plf_loop_stop arf_loop_stop)
  next
    case lt: True
    let ?j = "snd (next_field base fin delim i)"
    let ?f = "fst (next_field base fin delim i)"
    have dec: "fin - ?j < fin - i"
      using next_field_progress [OF lt, of base delim] lt by (simp add: diff_less_mono2)
    have unf: "plf_loop base fin delim i [] = ?f # plf_loop base fin delim ?j []"
      using plf_loop_acc [of base fin delim ?j "[?f]"] by (simp add: plf_loop_step [OF lt])
    show ?thesis
    proof (cases "added < nc")
      case False
      with less.prems show ?thesis by (simp add: arf_loop_stop)
    next
      case True
      then have le: "added + 1 \<le> nc" by simp
      have "nc - added = Suc (nc - (added + 1))" using True by simp
      then show ?thesis
        using less.hyps [OF dec le, of "acc @ [?f]"]
        by (simp add: arf_loop_step [OF lt True] unf)
    qed
  qed
qed

lemma pad_row_replicate: "pad_row nc added fs = fs @ replicate (nc - added) []"
proof (induction nc added fs rule: pad_row.induct)
  case (1 nc added fs)
  show ?case
  proof (cases "added < nc")
    case True
    then have "nc - added = Suc (nc - (added + 1))" by simp
    with True "1.IH" show ?thesis
      by (subst pad_row.simps) (simp add: replicate_app_Cons_same)
  next
    case False
    then show ?thesis by (subst pad_row.simps) simp
  qed
qed

lemma append_row_fields_raw:
  "append_row_fields base start fin delim nc flds =
     flds @ take nc (parse_line_fields base start fin delim)
          @ replicate (nc - length (parse_line_fields base start fin delim)) []"
proof (cases "start < fin")
  case False
  then have "plf_loop base fin delim start [] = []" by (simp add: plf_loop_stop)
  with False show ?thesis
    by (simp add: append_row_fields_def parse_line_fields_def arf_loop_plf pad_row_replicate)
next
  case True
  let ?raw = "plf_loop base fin delim start []"
  show ?thesis
  proof (cases "length ?raw < nc")
    case short: True
    then show ?thesis using True
      by (auto simp: append_row_fields_def parse_line_fields_def arf_loop_plf pad_row_replicate
            view_def min_def replicate_app_Cons_same Suc_diff_Suc)
  next
    case False
    then show ?thesis using True
      by (auto simp: append_row_fields_def parse_line_fields_def arf_loop_plf pad_row_replicate
            view_def min_def)
  qed
qed

lemma length_append_row_fields:
  "length (append_row_fields base start fin delim nc flds) = length flds + nc"
  by (simp add: append_row_fields_raw)


lemma parse_loop_stop:
  "\<not> pos < length base \<Longrightarrow> parse_loop base d nc pos flds rows = (flds, rows)"
  by (subst parse_loop.simps) simp

lemma parse_loop_blank:
  "pos < length base \<Longrightarrow> trim_cr base pos (find_line_end base (length base) pos) = pos \<Longrightarrow>
   parse_loop base d nc pos flds rows =
     parse_loop base d nc (next_pos (length base) (find_line_end base (length base) pos)) flds rows"
  by (subst parse_loop.simps) simp

lemma parse_loop_row:
  "pos < length base \<Longrightarrow> trim_cr base pos (find_line_end base (length base) pos) \<noteq> pos \<Longrightarrow>
   parse_loop base d nc pos flds rows =
     parse_loop base d nc (next_pos (length base) (find_line_end base (length base) pos))
       (append_row_fields base pos (trim_cr base pos (find_line_end base (length base) pos)) d nc flds)
       (rows + 1)"
  by (subst parse_loop.simps) simp

lemma parse_head_loop_stop:
  "\<not> (pos < length base \<and> rows < m) \<Longrightarrow>
   parse_head_loop base d nc m pos flds rows = (flds, rows, pos)"
  by (subst parse_head_loop.simps) auto

lemma parse_head_loop_blank:
  "pos < length base \<Longrightarrow> rows < m \<Longrightarrow>
   trim_cr base pos (find_line_end base (length base) pos) = pos \<Longrightarrow>
   parse_head_loop base d nc m pos flds rows =
     parse_head_loop base d nc m (next_pos (length base) (find_line_end base (length base) pos))
       flds rows"
  by (subst parse_head_loop.simps) simp

lemma parse_head_loop_row:
  "pos < length base \<Longrightarrow> rows < m \<Longrightarrow>
   trim_cr base pos (find_line_end base (length base) pos) \<noteq> pos \<Longrightarrow>
   parse_head_loop base d nc m pos flds rows =
     parse_head_loop base d nc m (next_pos (length base) (find_line_end base (length base) pos))
       (append_row_fields base pos (trim_cr base pos (find_line_end base (length base) pos)) d nc flds)
       (rows + 1)"
  by (subst parse_head_loop.simps) simp

lemma parse_loop_stride:
  "length flds = rows * nc \<Longrightarrow> parse_loop base d nc pos flds rows = (flds', rows') \<Longrightarrow>
   length flds' = rows' * nc"
proof (induction base d nc pos flds rows rule: parse_loop.induct)
  case (1 base d nc pos flds rows)
  let ?le = "find_line_end base (length base) pos"
  show ?case
  proof (cases "pos < length base")
    case False
    with "1.prems" show ?thesis by (simp add: parse_loop_stop)
  next
    case lt: True
    show ?thesis
    proof (cases "trim_cr base pos ?le = pos")
      case True
      with lt "1.prems"(2)
      have "parse_loop base d nc (next_pos (length base) ?le) flds rows = (flds', rows')"
        by (simp add: parse_loop_blank)
      with "1.IH"(1) [OF lt True] "1.prems"(1) show ?thesis by simp
    next
      case False
      with lt "1.prems"(2)
      have "parse_loop base d nc (next_pos (length base) ?le)
              (append_row_fields base pos (trim_cr base pos ?le) d nc flds) (rows + 1)
            = (flds', rows')"
        by (simp add: parse_loop_row)
      with "1.IH"(2) [OF lt False] "1.prems"(1) show ?thesis
        by (simp add: length_append_row_fields)
    qed
  qed
qed

lemma parse_head_loop_stride:
  "length flds = rows * nc \<Longrightarrow>
   parse_head_loop base d nc m pos flds rows = (flds', rows', pos') \<Longrightarrow>
   length flds' = rows' * nc"
proof (induction base d nc m pos flds rows rule: parse_head_loop.induct)
  case (1 base d nc m pos flds rows)
  let ?le = "find_line_end base (length base) pos"
  show ?case
  proof (cases "pos < length base \<and> rows < m")
    case False
    with "1.prems" show ?thesis by (simp add: parse_head_loop_stop)
  next
    case lt: True
    show ?thesis
    proof (cases "trim_cr base pos ?le = pos")
      case True
      with lt "1.prems"(2)
      have "parse_head_loop base d nc m (next_pos (length base) ?le) flds rows = (flds', rows', pos')"
        by (simp add: parse_head_loop_blank)
      with "1.IH"(1) [OF lt True] "1.prems"(1) show ?thesis by simp
    next
      case False
      with lt "1.prems"(2)
      have "parse_head_loop base d nc m (next_pos (length base) ?le)
              (append_row_fields base pos (trim_cr base pos ?le) d nc flds) (rows + 1)
            = (flds', rows', pos')"
        by (simp add: parse_head_loop_row)
      with "1.IH"(2) [OF lt False] "1.prems"(1) show ?thesis
        by (simp add: length_append_row_fields)
    qed
  qed
qed

lemma parse_stride: "length (flat_fields (parse r d)) = parsed_rows (parse r d) * ncols (parse r d)"
  by (auto simp: parse_def parse_header_def Let_def split: prod.splits if_splits
           dest!: parse_loop_stride [rotated])

lemma parse_head_stride:
  "length (flat_fields (parse_head neon r d n))
     = parsed_rows (parse_head neon r d n) * ncols (parse_head neon r d n)"
  by (auto simp: parse_head_def parse_header_def Let_def split: prod.splits if_splits
           dest!: parse_head_loop_stride [rotated])

lemma row_length:
  "length (flat_fields r) = parsed_rows r * ncols r \<Longrightarrow> i < parsed_rows r \<Longrightarrow>
   length (row r i) = ncols r"
proof -
  assume len: "length (flat_fields r) = parsed_rows r * ncols r" and i: "i < parsed_rows r"
  from i have "(i + 1) * ncols r \<le> parsed_rows r * ncols r"
    by (intro mult_le_mono1) simp
  then have "ncols r \<le> parsed_rows r * ncols r - i * ncols r" by simp
  with len show ?thesis by (simp add: row_def)
qed

lemma parse_ncols: "ncols (parse r d) = length (headers (parse r d))"
  by (simp add: parse_def parse_header_def Let_def case_prod_beta)

lemma parse_head_ncols: "ncols (parse_head neon r d n) = length (headers (parse_head neon r d n))"
  by (simp add: parse_head_def parse_header_def Let_def case_prod_beta)

text \<open>C3: after \<open>parse\<close> and after \<open>parse_head\<close> the flat store holds exactly
  \<open>parsed_rows * ncols\<close> field views, \<open>ncols\<close> being the number of headers, so \<open>row i\<close>
  has \<open>ncols\<close> fields for every
  \<open>i < parsed_rows\<close>; and what \<open>append_row_fields\<close> appends for one source row is the
  row's raw fields (those \<open>parse_line_fields\<close> yields) cut after \<open>ncols\<close> of them and
  padded with empty fields up to \<open>ncols\<close>.\<close>

theorem flat_store_stride:
  assumes "r' = parse r d \<or> r' = parse_head neon r d n"
  shows "length (flat_fields r') = parsed_rows r' * ncols r'
     \<and> ncols r' = length (headers r')
     \<and> (\<forall>i < parsed_rows r'. length (row r' i) = ncols r')
     \<and> append_row_fields base start fin d nc flds
         = flds @ take nc (parse_line_fields base start fin d)
                @ replicate (nc - length (parse_line_fields base start fin d)) []"
proof -
  from assms have len: "length (flat_fields r') = parsed_rows r' * ncols r'"
    using parse_stride [of r d] parse_head_stride [of neon r d n] by auto
  from assms have "ncols r' = length (headers r')"
    using parse_ncols [of r d] parse_head_ncols [of neon r d n] by auto
  with len show ?thesis
    by (simp add: row_length append_row_fields_raw)
qed

theorem flat_store_stride_witness:
  "flat_fields (parse (load (''a,b'' @ [newline] @ ''1'' @ [newline] @ ''1,2,3'' @ [newline])) comma)
     = [''1'', [], ''1'', ''2'']
   \<and> parsed_rows (parse (load (''a,b'' @ [newline] @ ''1'' @ [newline] @ ''1,2,3'' @ [newline])) comma) = 2
   \<and> ncols (parse (load (''a,b'' @ [newline] @ ''1'' @ [newline] @ ''1,2,3'' @ [newline])) comma) = 2
   \<and> length (row (parse (load (''a,b'' @ [newline] @ ''1'' @ [newline] @ ''1,2,3'' @ [newline])) comma) 0) = 2
   \<and> length (row (parse (load (''a,b'' @ [newline] @ ''1'' @ [newline] @ ''1,2,3'' @ [newline])) comma) 1) = 2
   \<and> append_row_fields (''1,2,3'') 0 5 comma 2 []
       = take 2 (parse_line_fields (''1,2,3'') 0 5 comma)
         @ replicate (2 - length (parse_line_fields (''1,2,3'') 0 5 comma)) []"
proof -
  let ?r = "load (''a,b'' @ [newline] @ ''1'' @ [newline] @ ''1,2,3'' @ [newline])"
  have ev: "flat_fields (parse ?r comma) = [''1'', [], ''1'', ''2'']
      \<and> parsed_rows (parse ?r comma) = 2 \<and> ncols (parse ?r comma) = 2"
    by code_simp
  have "parse ?r comma = parse ?r comma \<or> parse ?r comma = parse_head False ?r comma 0"
    by simp
  from flat_store_stride [OF this, of "''1,2,3''" 0 5 2 "[]"] ev show ?thesis
    by simp
qed

section \<open>The row total of a head parse\<close>

text \<open>The head parse tokenizes the first \<open>max_rows\<close> rows of the full parse, or all of
  them when there are fewer.\<close>

lemma parse_loop_rows_ge: "rows \<le> snd (parse_loop base d nc pos flds rows)"
proof (induction base d nc pos flds rows rule: parse_loop.induct)
  case (1 base d nc pos flds rows)
  let ?le = "find_line_end base (length base) pos"
  show ?case
  proof (cases "pos < length base")
    case False
    then show ?thesis by (simp add: parse_loop_stop)
  next
    case lt: True
    show ?thesis
    proof (cases "trim_cr base pos ?le = pos")
      case True
      with "1.IH"(1) [OF lt True] lt show ?thesis by (simp add: parse_loop_blank)
    next
      case False
      with "1.IH"(2) [OF lt False] lt show ?thesis by (simp add: parse_loop_row)
    qed
  qed
qed

lemma parse_head_loop_rows:
  "rows \<le> m \<Longrightarrow>
   fst (snd (parse_head_loop base d nc m pos flds rows))
     = min m (snd (parse_loop base d nc pos flds rows))"
proof (induction base d nc pos flds rows rule: parse_loop.induct)
  case (1 base d nc pos flds rows)
  let ?le = "find_line_end base (length base) pos"
  show ?case
  proof (cases "pos < length base")
    case False
    with "1.prems" show ?thesis by (simp add: parse_loop_stop parse_head_loop_stop)
  next
    case lt: True
    show ?thesis
    proof (cases "rows < m")
      case False
      with "1.prems" have "rows = m" by simp
      moreover have "rows \<le> snd (parse_loop base d nc pos flds rows)" by (rule parse_loop_rows_ge)
      ultimately show ?thesis by (simp add: parse_head_loop_stop)
    next
      case rm: True
      show ?thesis
      proof (cases "trim_cr base pos ?le = pos")
        case True
        with "1.IH"(1) [OF lt True "1.prems"] lt rm show ?thesis
          by (simp add: parse_loop_blank parse_head_loop_blank)
      next
        case False
        from rm have "rows + 1 \<le> m" by simp
        with "1.IH"(2) [OF lt False] lt rm False show ?thesis
          by (simp add: parse_loop_row parse_head_loop_row)
      qed
    qed
  qed
qed

lemma parse_head_row_count:
  "row_count (parse_head neon r d n) = min n (row_count (parse r d))"
proof -
  let ?r1 = "r\<lparr>headers := [], flat_fields := [], parsed_rows := 0, total_rows := 0, ncols := 0\<rparr>"
  obtain pos r2 where h: "parse_header ?r1 d = (pos, r2)" by (cases "parse_header ?r1 d")
  then have z: "parsed_rows r2 = 0"
    by (auto simp: parse_header_def Let_def split: if_splits)
  show ?thesis
  proof (cases "ncols r2 = 0")
    case True
    with h z show ?thesis by (simp add: parse_head_def parse_def row_count_def)
  next
    case False
    with h z parse_head_loop_rows [of 0 n "contents r2" d "ncols r2" pos "flat_fields r2"]
    show ?thesis
      by (simp add: parse_head_def parse_def row_count_def case_prod_beta)
  qed
qed

text \<open>C1, on the four lines \<open>a\<close>, \<open>1\<close>, an empty line and \<open>2\<close>, each ended by a
  newline, with \<open>max_rows = 1\<close>: a full parse
  finds two rows, the head parse tokenizes one row and then counts the two newline bytes of
  the remainder, blank line included, so it reports three rows in all.\<close>

theorem parse_head_counts_blank_lines:
  "row_count (parse (load (''a'' @ [newline] @ ''1'' @ [newline, newline] @ ''2'' @ [newline])) comma) = 2
   \<and> row_count (parse_head False
         (load (''a'' @ [newline] @ ''1'' @ [newline, newline] @ ''2'' @ [newline])) comma 1) = 1
   \<and> total_rows (parse_head False
         (load (''a'' @ [newline] @ ''1'' @ [newline, newline] @ ''2'' @ [newline])) comma 1) = 3
   \<and> total_rows (parse_head True
         (load (''a'' @ [newline] @ ''1'' @ [newline, newline] @ ''2'' @ [newline])) comma 1) = 3"
  by code_simp

section \<open>Float64 columns\<close>

lemma dot_not_digit: "\<not> is_digit CHR ''.''" "\<not> is_exp CHR ''.''"
  by (simp_all add: is_digit_def is_exp_def)

lemma digit_not_exp: "is_digit c \<Longrightarrow> \<not> is_exp c \<and> c \<noteq> CHR ''.''"
  by (auto simp: is_digit_def is_exp_def)

lemma exp_not_digit: "is_exp c \<Longrightarrow> \<not> is_digit c \<and> c \<noteq> CHR ''.''"
  by (auto simp: is_digit_def is_exp_def)

lemma scan_spec_Nil: "scan_spec [] has_dot has_digit = (has_digit \<and> has_dot)"
  by (auto simp: scan_spec_def)

lemma scan_spec_dot:
  "scan_spec (CHR ''.'' # cs) has_dot has_digit = (\<not> has_dot \<and> scan_spec cs True has_digit)"
  by (cases has_dot) (auto simp: scan_spec_def dot_not_digit)

lemma scan_spec_digit:
  "is_digit c \<Longrightarrow> scan_spec (c # cs) has_dot has_digit = scan_spec cs has_dot True"
  using digit_not_exp [of c] by (cases has_digit) (auto simp: scan_spec_def)

lemma scan_spec_exp:
  "is_exp c \<Longrightarrow> scan_spec (c # cs) has_dot has_digit =
     (has_digit \<and> strip_sign cs \<noteq> [] \<and> list_all is_digit (strip_sign cs))"
  by (cases has_dot) (simp_all add: scan_spec_def)

lemma scan_spec_other:
  "c \<noteq> CHR ''.'' \<Longrightarrow> \<not> is_digit c \<Longrightarrow> \<not> is_exp c \<Longrightarrow> scan_spec (c # cs) has_dot has_digit = False"
  by (simp add: scan_spec_def)

lemma float_scan_exp:
  "is_exp c \<Longrightarrow> float_scan (c # cs) has_dot has_digit =
     (has_digit \<and> strip_sign cs \<noteq> [] \<and> list_all is_digit (strip_sign cs))"
  using exp_not_digit [of c]
  by (cases cs) (auto simp: is_exp_def strip_sign_def is_sign_def)

lemma float_scan_shape: "float_scan cs has_dot has_digit = scan_spec cs has_dot has_digit"
proof (induction cs arbitrary: has_dot has_digit)
  case Nil
  show ?case by (simp add: scan_spec_Nil)
next
  case (Cons c cs)
  consider (dot) "c = CHR ''.''" | (digit) "is_digit c" | (ex) "is_exp c"
    | (other) "c \<noteq> CHR ''.''" "\<not> is_digit c" "\<not> is_exp c"
    by blast
  then show ?case
  proof cases
    case dot
    then show ?thesis using Cons.IH [of True has_digit] by (simp add: scan_spec_dot)
  next
    case digit
    with digit_not_exp [OF digit] show ?thesis
      using Cons.IH [of has_dot True] by (simp add: scan_spec_digit)
  next
    case ex
    then show ?thesis by (simp only: float_scan_exp scan_spec_exp)
  next
    case other
    then have "float_scan (c # cs) has_dot has_digit = False" by (simp add: is_exp_def)
    with other show ?thesis by (simp add: scan_spec_other)
  qed
qed


lemma scan_spec_float_syntax:
  "scan_spec (strip_sign s) False False \<longleftrightarrow>
     float_syntax s \<and> (exponent s \<noteq> [] \<or> CHR ''.'' \<in> set (mantissa s))"
proof -
  define x where "x = dropWhile (\<lambda>c. \<not> is_exp c) (strip_sign s)"
  define m where "m = takeWhile (\<lambda>c. \<not> is_exp c) (strip_sign s)"
  show ?thesis
    unfolding scan_spec_def float_syntax_def mantissa_def exponent_def
      x_def [symmetric] m_def [symmetric]
    by (cases "x = []") auto
qed

lemma is_float64_shape:
  "is_float64 s \<longleftrightarrow>
     float_syntax s \<and> (exponent s \<noteq> [] \<or> CHR ''.'' \<in> set (mantissa s))"
proof (cases s)
  case Nil
  then show ?thesis by (simp add: is_float64_def float_syntax_def mantissa_def strip_sign_def)
next
  case (Cons c cs)
  have drop: "drop (if is_sign c then 1 else 0) (c # cs) = strip_sign (c # cs)"
    by (simp add: strip_sign_def)
  show ?thesis
  proof (cases "strip_sign (c # cs) = []")
    case True
    then have "is_sign c" "cs = []" by (auto simp: strip_sign_def split: if_splits)
    then show ?thesis using Cons True
      by (simp add: is_float64_def float_syntax_def mantissa_def)
  next
    case False
    then have "(if is_sign c then 1 else 0) \<noteq> length (c # cs)"
      by (auto simp: strip_sign_def split: if_splits)
    then have "is_float64 s = float_scan (strip_sign (c # cs)) False False"
      using Cons drop by (simp add: is_float64_def Let_def)
    then show ?thesis using Cons
      by (simp only: float_scan_shape scan_spec_float_syntax)
  qed
qed

lemma infer_schema_nth:
  "col < column_count rd \<Longrightarrow>
   infer_schema rd sample_size ! col = infer_column rd (min (row_count rd) sample_size) col"
  by (simp add: infer_schema_def)

text \<open>C2, as the code has it: a column with at least one sampled value, whose sampled
  values unquoted each have the Float64 syntax of the specification and besides contain a
  decimal point in the mantissa or an exponent marker, and for which none of Bool,
  Currency, Date, Int64 holds for every sampled value, is classified Float64.\<close>

theorem infer_schema_float64:
  assumes "col < column_count rd"
    and "vals = sample_values rd col [0..<min (row_count rd) sample_size]"
    and "vals \<noteq> []"
    and "\<forall>v \<in> set vals. float_syntax (unquote v)
            \<and> (exponent (unquote v) \<noteq> [] \<or> CHR ''.'' \<in> set (mantissa (unquote v)))"
    and "\<not> all_match is_bool vals" and "\<not> all_match is_currency vals"
    and "\<not> all_match is_date vals" and "\<not> all_match is_int64 vals"
  shows "s_type (infer_schema rd sample_size ! col) = Float64"
proof -
  from assms(4) have fl: "all_match is_float64 vals"
    by (simp add: all_match_def list_all_iff is_float64_shape)
  have nz: "min (row_count rd) sample_size \<noteq> 0"
  proof
    assume "min (row_count rd) sample_size = 0"
    with assms(2) have "vals = []" by simp
    with assms(3) show False by simp
  qed
  have "infer_column rd (min (row_count rd) sample_size) col
          = \<lparr>s_name = unquote (headers rd ! col), s_type = detect_type vals\<rparr>"
    using nz assms(2,3) by (auto simp: infer_column_def Let_def)
  moreover have "detect_type vals = Float64"
    using fl assms(5-8) by (simp add: detect_type_def)
  ultimately show ?thesis
    using assms(1) by (simp add: infer_schema_nth)
qed

theorem infer_schema_float64_witness:
  "s_type (infer_schema
      (parse (load (''v'' @ [newline] @ ''1.5'' @ [newline] @ ''2e3'' @ [newline])) comma) 100 ! 0)
     = Float64
   \<and> map unquote (sample_values
         (parse (load (''v'' @ [newline] @ ''1.5'' @ [newline] @ ''2e3'' @ [newline])) comma) 0
         [0..<min (row_count
            (parse (load (''v'' @ [newline] @ ''1.5'' @ [newline] @ ''2e3'' @ [newline])) comma)) 100])
     = [''1.5'', ''2e3'']"
proof -
  let ?rd = "parse (load (''v'' @ [newline] @ ''1.5'' @ [newline] @ ''2e3'' @ [newline])) comma"
  let ?vals = "sample_values ?rd 0 [0..<min (row_count ?rd) 100]"
  have h1: "0 < column_count ?rd" by code_simp
  have h3: "?vals \<noteq> []" by code_simp
  have h4: "\<forall>v \<in> set ?vals. float_syntax (unquote v)
      \<and> (exponent (unquote v) \<noteq> [] \<or> CHR ''.'' \<in> set (mantissa (unquote v)))"
    by code_simp
  have h5: "\<not> all_match is_bool ?vals" by code_simp
  have h6: "\<not> all_match is_currency ?vals" by code_simp
  have h7: "\<not> all_match is_date ?vals" by code_simp
  have h8: "\<not> all_match is_int64 ?vals" by code_simp
  have ev: "map unquote ?vals = [''1.5'', ''2e3'']" by code_simp
  from infer_schema_float64 [OF h1 refl h3 h4 h5 h6 h7 h8] ev show ?thesis by simp
qed

text \<open>The claim as the specification words it fails on the column of the values \<open>1\<close> and
  \<open>2.5\<close>: both have the specification's Float64 syntax, no earlier predicate holds for
  both, and the column is classified Text, because \<open>is_float64\<close> rejects \<open>1\<close>, which has
  neither a decimal point nor an exponent.\<close>

theorem infer_schema_mixed_int_float_is_text:
  "map unquote (sample_values
       (parse (load (''v'' @ [newline] @ ''1'' @ [newline] @ ''2.5'' @ [newline])) comma) 0
       [0..<min (row_count
          (parse (load (''v'' @ [newline] @ ''1'' @ [newline] @ ''2.5'' @ [newline])) comma)) 100])
     = [''1'', ''2.5'']
   \<and> float_syntax ''1'' \<and> float_syntax ''2.5''
   \<and> \<not> all_match is_bool [''1'', ''2.5''] \<and> \<not> all_match is_currency [''1'', ''2.5'']
   \<and> \<not> all_match is_date [''1'', ''2.5''] \<and> \<not> all_match is_int64 [''1'', ''2.5'']
   \<and> s_type (infer_schema
         (parse (load (''v'' @ [newline] @ ''1'' @ [newline] @ ''2.5'' @ [newline])) comma) 100 ! 0)
       = Text"
  by code_simp

section \<open>Filtering\<close>

lemma filter_rows_eq: "filter_rows match n r acc = acc @ filter match [r..<n]"
proof (induction match n r acc rule: filter_rows.induct)
  case (1 match n r result)
  show ?case
  proof (cases "r < n")
    case True
    with "1.IH" show ?thesis
      by (subst filter_rows.simps) (simp add: upt_conv_Cons)
  next
    case False
    then show ?thesis by (subst filter_rows.simps) simp
  qed
qed

lemma sorted_filter_upt: "sorted_wrt (<) (filter P [0..<n])"
  by (rule sorted_wrt_filter) simp

text \<open>C7: when \<open>apply_filters\<close> returns, its result is strictly ascending and holds only
  indices of parsed rows: it is the list of the rows selected by the resolved filters, in
  row order. With no filter it returns every row index under AND semantics and the empty
  list under OR semantics, neither being an error.\<close>

theorem apply_filters_ascending:
  "(\<forall>idxs. apply_filters stod fs rd schema ci orl = Inr idxs \<longrightarrow>
        sorted_wrt (<) idxs \<and> (\<forall>r \<in> set idxs. r < row_count rd))
   \<and> (\<forall>resolved. resolve_filters fs (headers rd) schema ci = Inr resolved \<longrightarrow>
        apply_filters stod fs rd schema ci orl
          = Inr (filter (row_selected stod rd resolved ci orl) [0..<row_count rd]))
   \<and> apply_filters stod [] rd schema ci False = Inr [0..<row_count rd]
   \<and> apply_filters stod [] rd schema ci True = Inr []"
proof (intro conjI allI impI)
  fix idxs
  assume a: "apply_filters stod fs rd schema ci orl = Inr idxs"
  then obtain resolved where
    "idxs = filter (row_selected stod rd resolved ci orl) [0..<row_count rd]"
    by (auto simp: apply_filters_def filter_rows_eq split: sum.splits)
  then show "sorted_wrt (<) idxs" and "\<forall>r \<in> set idxs. r < row_count rd"
    by (simp_all add: sorted_filter_upt)
next
  fix resolved
  assume "resolve_filters fs (headers rd) schema ci = Inr resolved"
  then show "apply_filters stod fs rd schema ci orl
      = Inr (filter (row_selected stod rd resolved ci orl) [0..<row_count rd])"
    by (simp add: apply_filters_def filter_rows_eq)
next
  show "apply_filters stod [] rd schema ci False = Inr [0..<row_count rd]"
    by (simp add: apply_filters_def filter_rows_eq row_selected_def)
next
  show "apply_filters stod [] rd schema ci True = Inr []"
    by (simp add: apply_filters_def filter_rows_eq row_selected_def)
qed


theorem apply_filters_ascending_witness:
  "apply_filters example_stod [\<lparr>f_column = ''age'', f_op = Gt, f_value = ''30''\<rparr>] ages_csv
       [\<lparr>s_name = ''age'', s_type = Int64\<rparr>] False False = Inr [2]
   \<and> sorted_wrt (<) [2 :: nat]
   \<and> apply_filters example_stod [] ages_csv [\<lparr>s_name = ''age'', s_type = Int64\<rparr>] False False
       = Inr [0..<3]
   \<and> apply_filters example_stod [] ages_csv [\<lparr>s_name = ''age'', s_type = Int64\<rparr>] False True
       = Inr []"
proof -
  let ?f = "\<lparr>f_column = ''age'', f_op = Gt, f_value = ''30''\<rparr>"
  let ?sch = "[\<lparr>s_name = ''age'', s_type = Int64\<rparr>]"
  have ev: "apply_filters example_stod [?f] ages_csv ?sch False False = Inr [2]"
    by code_simp
  have rc: "row_count ages_csv = 3" by code_simp
  from apply_filters_ascending [of example_stod "[?f]" ages_csv ?sch False False] ev
  have "sorted_wrt (<) [2 :: nat]" by blast
  moreover from apply_filters_ascending [of example_stod "[?f]" ages_csv ?sch False False] rc
  have "apply_filters example_stod [] ages_csv ?sch False False = Inr [0..<3]"
    and "apply_filters example_stod [] ages_csv ?sch False True = Inr []"
    by simp_all
  ultimately show ?thesis using ev by simp
qed

lemma resolve_filters_total:
  "(\<forall>f \<in> set fs. find_header hs ci (fold_name ci (f_column f)) 0 \<noteq> None)
   \<Longrightarrow> \<exists>resolved. resolve_filters fs hs schema ci = Inr resolved"
  by (induction fs) (auto split: option.splits)

lemma resolve_filters_error:
  "resolve_filters fs hs schema ci = Inl e \<Longrightarrow>
   \<exists>f \<in> set fs. find_header hs ci (fold_name ci (f_column f)) 0 = None
       \<and> e = UnknownColumn (f_column f) (map unquote hs)"
  by (induction fs) (auto split: option.splits sum.splits)

lemma find_header_found:
  "find_header hs ci nm k = Some i \<Longrightarrow>
   k \<le> i \<and> i - k < length hs \<and> fold_name ci (unquote (hs ! (i - k))) = nm"
proof (induction hs arbitrary: k)
  case Nil
  then show ?case by simp
next
  case (Cons h hs)
  show ?case
  proof (cases "fold_name ci (unquote h) = nm")
    case True
    with Cons.prems show ?thesis by simp
  next
    case False
    with Cons.prems have "find_header hs ci nm (k + 1) = Some i" by simp
    from Cons.IH [OF this] have "k + 1 \<le> i" "i - (k + 1) < length hs"
      "fold_name ci (unquote (hs ! (i - (k + 1)))) = nm" by simp_all
    moreover from \<open>k + 1 \<le> i\<close> have "i - k = Suc (i - (k + 1))" by simp
    ultimately show ?thesis by simp
  qed
qed

lemma resolve_filters_Inr:
  "resolve_filters fs hs schema ci = Inr rs \<Longrightarrow>
   (\<forall>f \<in> set fs. find_header hs ci (fold_name ci (f_column f)) 0 \<noteq> None)
   \<and> rs = map (\<lambda>f. \<lparr>rf_filter = f,
                    rf_col_idx = the (find_header hs ci (fold_name ci (f_column f)) 0),
                    rf_col_type =
                      (if the (find_header hs ci (fold_name ci (f_column f)) 0) < length schema
                       then s_type (schema ! the (find_header hs ci (fold_name ci (f_column f)) 0))
                       else Text)\<rparr>) fs"
  by (induction fs arbitrary: rs) (auto split: option.splits sum.splits)

lemma parsed_row_length:
  assumes "rd = parse r0 d \<or> rd = parse_head neon r0 d n" and "r < row_count rd"
  shows "length (row rd r) = length (headers rd)"
proof -
  from assms(1) have len: "length (flat_fields rd) = parsed_rows rd * ncols rd"
    using parse_stride [of r0 d] parse_head_stride [of neon r0 d n] by auto
  from assms(1) have nc: "ncols rd = length (headers rd)"
    using parse_ncols [of r0 d] parse_head_ncols [of neon r0 d n] by auto
  from row_length [OF len] assms(2) nc show ?thesis by (simp add: row_count_def)
qed

lemma row_matches_cell:
  assumes "i < length rw"
  shows "row_matches stod rw f i (if i < length schema then s_type (schema ! i) else Text) ci =
     (if i < length schema \<and> s_type (schema ! i) \<in> {Int64, Float64, Currency}
          \<and> f_op f \<notin> {Contains, StartsWith, EndsWith}
      then (case (stod (filter (\<lambda>c. c \<noteq> CHR ''$'' \<and> c \<noteq> comma) (unquote (rw ! i))),
                  stod (filter (\<lambda>c. c \<noteq> CHR ''$'' \<and> c \<noteq> comma) (f_value f))) of
              (Some cell_val, Some filter_val) \<Rightarrow> compare_numeric cell_val (f_op f) filter_val
            | _ \<Rightarrow> compare_strings (unquote (rw ! i)) (f_op f) (f_value f) ci)
      else compare_strings (unquote (rw ! i)) (f_op f) (f_value f) ci)"
  using assms
  by (auto simp: row_matches_def Let_def parse_numeric_def is_numeric_type_def
           split: option.splits)

text \<open>C5: on a reader that \<open>parse\<close> or \<open>parse_head\<close> has filled, when every filter names a
  header, \<open>apply_filters\<close> returns the indices, in row order, of the rows that pass some
  filter (OR) or every filter (AND), and a row passes a filter on column \<open>i\<close> as follows.
  When the schema gives column \<open>i\<close> the type Int64, Float64 or Currency and the operator is
  not Contains, StartsWith or EndsWith, the unquoted cell and the filter literal, both with
  \<open>$\<close> and \<open>,\<close> removed, go to \<open>stod\<close>: when both parse, the two numbers are compared; when
  either does not, the unquoted cell and the literal are compared as strings. In every
  other case they are compared as strings. Whatever the cells hold and whatever \<open>stod\<close>
  does, the only error of \<open>apply_filters\<close> is the unknown column.\<close>

theorem numeric_filter_falls_back:
  assumes "rd = parse r0 d \<or> rd = parse_head neon r0 d n"
  shows
  "((\<forall>f \<in> set fs. find_header (headers rd) ci (fold_name ci (f_column f)) 0 \<noteq> None) \<longrightarrow>
      apply_filters stod fs rd schema ci orl =
        Inr (filter
          (\<lambda>r. (if orl then list_ex else list_all)
             (\<lambda>f. case find_header (headers rd) ci (fold_name ci (f_column f)) 0 of
                None \<Rightarrow> False
              | Some i \<Rightarrow>
                  if i < length schema \<and> s_type (schema ! i) \<in> {Int64, Float64, Currency}
                     \<and> f_op f \<notin> {Contains, StartsWith, EndsWith}
                  then (case (stod (filter (\<lambda>c. c \<noteq> CHR ''$'' \<and> c \<noteq> comma)
                                      (unquote (row rd r ! i))),
                              stod (filter (\<lambda>c. c \<noteq> CHR ''$'' \<and> c \<noteq> comma) (f_value f))) of
                          (Some cell_val, Some filter_val) \<Rightarrow>
                            compare_numeric cell_val (f_op f) filter_val
                        | _ \<Rightarrow> compare_strings (unquote (row rd r ! i)) (f_op f) (f_value f) ci)
                  else compare_strings (unquote (row rd r ! i)) (f_op f) (f_value f) ci) fs)
          [0..<row_count rd]))
   \<and> (\<forall>e. apply_filters stod fs rd schema ci orl = Inl e \<longrightarrow>
        (\<exists>f \<in> set fs. find_header (headers rd) ci (fold_name ci (f_column f)) 0 = None
            \<and> e = UnknownColumn (f_column f) (map unquote (headers rd))))"
proof (intro conjI impI allI)
  assume all: "\<forall>f \<in> set fs. find_header (headers rd) ci (fold_name ci (f_column f)) 0 \<noteq> None"
  from resolve_filters_total [OF this, of schema]
  obtain rs where rs: "resolve_filters fs (headers rd) schema ci = Inr rs" by blast
  note shape = resolve_filters_Inr [OF rs, THEN conjunct2]
  have "filter (row_selected stod rd rs ci orl) [0..<row_count rd] =
     filter
          (\<lambda>r. (if orl then list_ex else list_all)
             (\<lambda>f. case find_header (headers rd) ci (fold_name ci (f_column f)) 0 of
                None \<Rightarrow> False
              | Some i \<Rightarrow>
                  if i < length schema \<and> s_type (schema ! i) \<in> {Int64, Float64, Currency}
                     \<and> f_op f \<notin> {Contains, StartsWith, EndsWith}
                  then (case (stod (filter (\<lambda>c. c \<noteq> CHR ''$'' \<and> c \<noteq> comma)
                                      (unquote (row rd r ! i))),
                              stod (filter (\<lambda>c. c \<noteq> CHR ''$'' \<and> c \<noteq> comma) (f_value f))) of
                          (Some cell_val, Some filter_val) \<Rightarrow>
                            compare_numeric cell_val (f_op f) filter_val
                        | _ \<Rightarrow> compare_strings (unquote (row rd r ! i)) (f_op f) (f_value f) ci)
                  else compare_strings (unquote (row rd r ! i)) (f_op f) (f_value f) ci) fs)
          [0..<row_count rd]"
  proof (rule filter_cong [OF refl])
    fix r
    assume "r \<in> set [0..<row_count rd]"
    then have r: "r < row_count rd" by simp
    have cell: "row_matches stod (row rd r) f
          (the (find_header (headers rd) ci (fold_name ci (f_column f)) 0))
          (if the (find_header (headers rd) ci (fold_name ci (f_column f)) 0) < length schema
           then s_type (schema ! the (find_header (headers rd) ci (fold_name ci (f_column f)) 0))
           else Text) ci
        = (case find_header (headers rd) ci (fold_name ci (f_column f)) 0 of
                None \<Rightarrow> False
              | Some i \<Rightarrow>
                  if i < length schema \<and> s_type (schema ! i) \<in> {Int64, Float64, Currency}
                     \<and> f_op f \<notin> {Contains, StartsWith, EndsWith}
                  then (case (stod (filter (\<lambda>c. c \<noteq> CHR ''$'' \<and> c \<noteq> comma)
                                      (unquote (row rd r ! i))),
                              stod (filter (\<lambda>c. c \<noteq> CHR ''$'' \<and> c \<noteq> comma) (f_value f))) of
                          (Some cell_val, Some filter_val) \<Rightarrow>
                            compare_numeric cell_val (f_op f) filter_val
                        | _ \<Rightarrow> compare_strings (unquote (row rd r ! i)) (f_op f) (f_value f) ci)
                  else compare_strings (unquote (row rd r ! i)) (f_op f) (f_value f) ci)"
      if f: "f \<in> set fs" for f
    proof -
      from all f obtain i where
        i: "find_header (headers rd) ci (fold_name ci (f_column f)) 0 = Some i" by auto
      from find_header_found [OF i] have "i < length (headers rd)" by simp
      with parsed_row_length [OF assms r] have "i < length (row rd r)" by simp
      from row_matches_cell [OF this, of stod f schema ci] show ?thesis
        by (simp only: i option.sel option.case)
    qed
    show "row_selected stod rd rs ci orl r = (if orl then list_ex else list_all)
             (\<lambda>f. case find_header (headers rd) ci (fold_name ci (f_column f)) 0 of
                None \<Rightarrow> False
              | Some i \<Rightarrow>
                  if i < length schema \<and> s_type (schema ! i) \<in> {Int64, Float64, Currency}
                     \<and> f_op f \<notin> {Contains, StartsWith, EndsWith}
                  then (case (stod (filter (\<lambda>c. c \<noteq> CHR ''$'' \<and> c \<noteq> comma)
                                      (unquote (row rd r ! i))),
                              stod (filter (\<lambda>c. c \<noteq> CHR ''$'' \<and> c \<noteq> comma) (f_value f))) of
                          (Some cell_val, Some filter_val) \<Rightarrow>
                            compare_numeric cell_val (f_op f) filter_val
                        | _ \<Rightarrow> compare_strings (unquote (row rd r ! i)) (f_op f) (f_value f) ci)
                  else compare_strings (unquote (row rd r ! i)) (f_op f) (f_value f) ci) fs"
      unfolding row_selected_def shape
      by (simp add: list_ex_iff list_all_iff cell del: split_paired_All)
  qed
  with rs show "apply_filters stod fs rd schema ci orl =
        Inr (filter
          (\<lambda>r. (if orl then list_ex else list_all)
             (\<lambda>f. case find_header (headers rd) ci (fold_name ci (f_column f)) 0 of
                None \<Rightarrow> False
              | Some i \<Rightarrow>
                  if i < length schema \<and> s_type (schema ! i) \<in> {Int64, Float64, Currency}
                     \<and> f_op f \<notin> {Contains, StartsWith, EndsWith}
                  then (case (stod (filter (\<lambda>c. c \<noteq> CHR ''$'' \<and> c \<noteq> comma)
                                      (unquote (row rd r ! i))),
                              stod (filter (\<lambda>c. c \<noteq> CHR ''$'' \<and> c \<noteq> comma) (f_value f))) of
                          (Some cell_val, Some filter_val) \<Rightarrow>
                            compare_numeric cell_val (f_op f) filter_val
                        | _ \<Rightarrow> compare_strings (unquote (row rd r ! i)) (f_op f) (f_value f) ci)
                  else compare_strings (unquote (row rd r ! i)) (f_op f) (f_value f) ci) fs)
          [0..<row_count rd])"
    by (simp add: apply_filters_def filter_rows_eq)
next
  fix e
  assume "apply_filters stod fs rd schema ci orl = Inl e"
  then have "resolve_filters fs (headers rd) schema ci = Inl e"
    by (auto simp: apply_filters_def split: sum.splits)
  from resolve_filters_error [OF this]
  show "\<exists>f \<in> set fs. find_header (headers rd) ci
                          (fold_name ci (f_column f)) 0 = None
            \<and> e = UnknownColumn (f_column f) (map unquote (headers rd))" .
qed


theorem numeric_filter_falls_back_witness:
  "apply_filters example_stod [\<lparr>f_column = ''age'', f_op = Gt, f_value = ''30''\<rparr>] mixed_csv
       [\<lparr>s_name = ''age'', s_type = Int64\<rparr>] False False = Inr [0, 1, 3]
   \<and> apply_filters example_stod [\<lparr>f_column = ''age'', f_op = Gt, f_value = ''30''\<rparr>] mixed_csv
       [\<lparr>s_name = ''age'', s_type = Text\<rparr>] False False = Inr [1]
   \<and> map (\<lambda>r. unquote (row mixed_csv r ! 0)) [0, 1, 2, 3] = [''$35'', ''abc'', ''25'', ''3,5'']
   \<and> compare_strings ''$35'' Gt ''30'' False = False
   \<and> compare_strings ''abc'' Gt ''30'' False = True"
proof -
  let ?f = "\<lparr>f_column = ''age'', f_op = Gt, f_value = ''30''\<rparr>"
  let ?num = "[\<lparr>s_name = ''age'', s_type = Int64\<rparr>]"
  let ?txt = "[\<lparr>s_name = ''age'', s_type = Text\<rparr>]"
  have hdr: "find_header (headers mixed_csv) False (fold_name False (f_column ?f)) 0 = Some 0"
    by code_simp
  have cells: "unquote (row mixed_csv 0 ! 0) = ''$35''" "unquote (row mixed_csv 1 ! 0) = ''abc''"
    "unquote (row mixed_csv 2 ! 0) = ''25''" "unquote (row mixed_csv 3 ! 0) = ''3,5''"
    by code_simp+
  have cs: "compare_strings ''$35'' Gt ''30'' False = False"
    "compare_strings ''abc'' Gt ''30'' False = True"
    "compare_strings ''25'' Gt ''30'' False = False"
    "compare_strings ''3,5'' Gt ''30'' False = False"
    by code_simp+
  have pre: "mixed_csv = parse (load (''age'' @ [newline] @ ''$35'' @ [newline] @ ''abc''
        @ [newline] @ ''25'' @ [newline] @ [dquote] @ ''3,5'' @ [dquote] @ [newline])) comma
      \<or> mixed_csv = parse_head False (load (''age'' @ [newline] @ ''$35'' @ [newline] @ ''abc''
        @ [newline] @ ''25'' @ [newline] @ [dquote] @ ''3,5'' @ [dquote] @ [newline])) comma 0"
    by (simp add: mixed_csv_def)
  have res: "\<forall>f \<in> set [?f].
      find_header (headers mixed_csv) False (fold_name False (f_column f)) 0 \<noteq> None"
    using hdr by simp
  note on_num = numeric_filter_falls_back [OF pre, of "[?f]" False example_stod ?num False,
      THEN conjunct1, THEN mp, OF res]
  note on_txt = numeric_filter_falls_back [OF pre, of "[?f]" False example_stod ?txt False,
      THEN conjunct1, THEN mp, OF res]
  have a: "apply_filters example_stod [?f] mixed_csv ?num False False = Inr [0, 1, 3]"
    by (subst on_num) code_simp
  have b: "apply_filters example_stod [?f] mixed_csv ?txt False False = Inr [1]"
    by (subst on_txt) code_simp
  from a b cells cs show ?thesis by simp
qed

section \<open>Column selection\<close>

lemma resolve_loop_end: "resolve_loop hs [] idx = Inr idx"
  by (subst resolve_loop.simps) (simp add: getline_def)

lemma resolve_loop_blank:
  "ss \<noteq> [] \<Longrightarrow> list_all (\<lambda>x. x = space) (takeWhile (\<lambda>c. c \<noteq> comma) ss) \<Longrightarrow>
   resolve_loop hs ss idx = resolve_loop hs (drop 1 (dropWhile (\<lambda>c. c \<noteq> comma) ss)) idx"
  by (subst resolve_loop.simps) (simp add: getline_def find_first_not_of_def)

lemma trimmed_first: "tok \<noteq> [] \<Longrightarrow> hd tok \<noteq> c \<Longrightarrow> find_first_not_of tok c = Some 0"
  by (cases tok) (simp_all add: find_first_not_of_def)

lemma trimmed_last:
  "tok \<noteq> [] \<Longrightarrow> last tok \<noteq> c \<Longrightarrow> find_last_not_of tok c = Some (length tok - 1)"
proof -
  assume ne: "tok \<noteq> []" and l: "last tok \<noteq> c"
  then have "hd (rev tok) \<noteq> c" by (simp add: hd_rev)
  with ne have tw: "takeWhile (\<lambda>x. x = c) (rev tok) = []" by (cases "rev tok") auto
  from ne have "last tok \<in> set tok" by simp
  with l have "\<not> list_all (\<lambda>x. x = c) tok"
    by (auto simp: list_all_iff)
  with tw show ?thesis by (simp add: find_last_not_of_def)
qed

lemma resolve_loop_token:
  assumes "ss \<noteq> []" and "takeWhile (\<lambda>c. c \<noteq> comma) ss = tok"
    and "tok \<noteq> []" and "hd tok \<noteq> space" and "last tok \<noteq> space"
    and "find_header hs False tok 0 = Some i"
  shows "resolve_loop hs ss idx
           = resolve_loop hs (drop 1 (dropWhile (\<lambda>c. c \<noteq> comma) ss)) (idx @ [i])"
proof -
  have g: "getline ss comma = Some (tok, drop 1 (dropWhile (\<lambda>c. c \<noteq> comma) ss))"
    using assms(1,2) by (simp add: getline_def)
  have f: "find_first_not_of tok space = Some 0"
    using assms(3,4) by (rule trimmed_first)
  have l: "find_last_not_of tok space = Some (length tok - 1)"
    using assms(3,5) by (rule trimmed_last)
  have s: "substr tok 0 (Suc (length tok - Suc 0)) = tok"
    using assms(3) by (simp add: substr_def)
  show ?thesis
    by (subst resolve_loop.simps) (simp add: g f l s assms(6))
qed

lemma resolve_loop_all_blank:
  "\<forall>c \<in> set ss. c = comma \<or> c = space \<Longrightarrow> resolve_loop hs ss idx = Inr idx"
proof (induction "length ss" arbitrary: ss rule: less_induct)
  case less
  show ?case
  proof (cases "ss = []")
    case True
    then show ?thesis by (simp add: resolve_loop_end)
  next
    case False
    let ?rest = "drop 1 (dropWhile (\<lambda>c. c \<noteq> comma) ss)"
    have tok: "list_all (\<lambda>x. x = space) (takeWhile (\<lambda>c. c \<noteq> comma) ss)"
      unfolding list_all_iff
    proof
      fix x assume x: "x \<in> set (takeWhile (\<lambda>c. c \<noteq> comma) ss)"
      then have "x \<in> set ss" and "x \<noteq> comma"
        by (auto dest: set_takeWhileD)
      with less.prems show "x = space" by auto
    qed
    have shorter: "length ?rest < length ss"
      using False length_dropWhile_le [of "\<lambda>c. c \<noteq> comma" ss] by (cases ss) auto
    have sub: "\<forall>c \<in> set ?rest. c = comma \<or> c = space"
    proof
      fix c assume "c \<in> set ?rest"
      then have "c \<in> set (dropWhile (\<lambda>c. c \<noteq> comma) ss)" by (rule in_set_dropD)
      then have "c \<in> set ss" by (rule set_dropWhileD)
      with less.prems show "c = comma \<or> c = space" by simp
    qed
    from less.hyps [OF shorter sub] show ?thesis
      by (simp add: resolve_loop_blank [OF False tok])
  qed
qed

lemma takeWhile_until: "d \<notin> set a \<Longrightarrow> takeWhile (\<lambda>c. c \<noteq> d) (a @ d # r) = a"
  by (induction a) auto

lemma dropWhile_until: "d \<notin> set a \<Longrightarrow> dropWhile (\<lambda>c. c \<noteq> d) (a @ d # r) = d # r"
  by (induction a) auto

lemma takeWhile_all: "d \<notin> set a \<Longrightarrow> takeWhile (\<lambda>c. c \<noteq> d) a = a"
  by (induction a) auto

lemma dropWhile_all: "d \<notin> set a \<Longrightarrow> dropWhile (\<lambda>c. c \<noteq> d) a = []"
  by (induction a) auto

text \<open>C9: for header names \<open>a\<close> and \<open>b\<close> that a select expression can name (not empty,
  without comma, without a space at either end), the expression \<open>a,,b\<close> resolves to the
  index of \<open>a\<close> followed by the index of \<open>b\<close>: the empty token between the commas is
  skipped. An expression made of commas and spaces only raises NoColumnsSelected.\<close>

theorem resolve_columns_skips_empty_tokens:
  "(comma \<notin> set a \<and> a \<noteq> [] \<and> hd a \<noteq> space \<and> last a \<noteq> space
    \<and> comma \<notin> set b \<and> b \<noteq> [] \<and> hd b \<noteq> space \<and> last b \<noteq> space
    \<and> find_header (headers rd) False a 0 = Some ia
    \<and> find_header (headers rd) False b 0 = Some ib
    \<longrightarrow> resolve_columns (a @ [comma, comma] @ b) rd = Inr [ia, ib]
        \<and> ia < length (headers rd) \<and> unquote (headers rd ! ia) = a
        \<and> ib < length (headers rd) \<and> unquote (headers rd ! ib) = b)
   \<and> ((\<forall>c \<in> set s. c = comma \<or> c = space) \<longrightarrow> resolve_columns s rd = Inl NoColumnsSelected)"
proof (intro conjI impI)
  assume h: "comma \<notin> set a \<and> a \<noteq> [] \<and> hd a \<noteq> space \<and> last a \<noteq> space
    \<and> comma \<notin> set b \<and> b \<noteq> [] \<and> hd b \<noteq> space \<and> last b \<noteq> space
    \<and> find_header (headers rd) False a 0 = Some ia
    \<and> find_header (headers rd) False b 0 = Some ib"
  let ?hs = "headers rd"
  let ?s = "a @ [comma, comma] @ b"
  from h have ca: "comma \<notin> set a" and na: "a \<noteq> []" and ha: "hd a \<noteq> space"
    and la: "last a \<noteq> space" and cb: "comma \<notin> set b" and nb: "b \<noteq> []"
    and hb: "hd b \<noteq> space" and lb: "last b \<noteq> space"
    and fa: "find_header ?hs False a 0 = Some ia" and fb: "find_header ?hs False b 0 = Some ib"
    by blast+
  have ns: "?s \<noteq> []" by simp
  have ta: "takeWhile (\<lambda>c. c \<noteq> comma) ?s = a"
    using takeWhile_until [OF ca, of "comma # b"] by simp
  have da: "drop 1 (dropWhile (\<lambda>c. c \<noteq> comma) ?s) = comma # b"
    using dropWhile_until [OF ca, of "comma # b"] by simp
  have tb: "takeWhile (\<lambda>c. c \<noteq> comma) b = b" by (rule takeWhile_all [OF cb])
  have db: "drop 1 (dropWhile (\<lambda>c. c \<noteq> comma) b) = []" by (simp add: dropWhile_all [OF cb])
  have 1: "resolve_loop ?hs ?s [] = resolve_loop ?hs (comma # b) ([] @ [ia])"
    unfolding da [symmetric] by (rule resolve_loop_token [OF ns ta na ha la fa])
  have 2: "resolve_loop ?hs (comma # b) [ia] = resolve_loop ?hs b [ia]"
    using resolve_loop_blank [of "comma # b" ?hs "[ia]"] by simp
  have 3: "resolve_loop ?hs b [ia] = resolve_loop ?hs [] ([ia] @ [ib])"
    unfolding db [symmetric] by (rule resolve_loop_token [OF nb tb nb hb lb fb])
  have "resolve_loop ?hs ?s [] = resolve_loop ?hs (comma # b) [ia]"
    using 1 by simp
  also have "\<dots> = resolve_loop ?hs b [ia]" by (rule 2)
  also have "\<dots> = resolve_loop ?hs [] [ia, ib]" using 3 by simp
  also have "\<dots> = Inr [ia, ib]" by (rule resolve_loop_end)
  finally have "resolve_loop ?hs ?s [] = Inr [ia, ib]" .
  then show "resolve_columns (a @ [comma, comma] @ b) rd = Inr [ia, ib]"
    by (simp add: resolve_columns_def)
  from find_header_found [OF fa] show "ia < length ?hs" "unquote (?hs ! ia) = a"
    by (simp_all add: fold_name_def)
  from find_header_found [OF fb] show "ib < length ?hs" "unquote (?hs ! ib) = b"
    by (simp_all add: fold_name_def)
next
  assume "\<forall>c \<in> set s. c = comma \<or> c = space"
  then show "resolve_columns s rd = Inl NoColumnsSelected"
    by (simp add: resolve_columns_def resolve_loop_all_blank)
qed

theorem resolve_columns_skips_empty_tokens_witness:
  "resolve_columns ''a,,b'' (parse (load (''a,x,b'' @ [newline] @ ''1,2,3'' @ [newline])) comma)
     = Inr [0, 2]
   \<and> resolve_columns '', ,'' (parse (load (''a,x,b'' @ [newline] @ ''1,2,3'' @ [newline])) comma)
     = Inl NoColumnsSelected"
proof -
  let ?rd = "parse (load (''a,x,b'' @ [newline] @ ''1,2,3'' @ [newline])) comma"
  have fa: "find_header (headers ?rd) False ''a'' 0 = Some 0" by code_simp
  have fb: "find_header (headers ?rd) False ''b'' 0 = Some 2" by code_simp
  from resolve_columns_skips_empty_tokens [of "''a''" "''b''" ?rd 0 2 "'', ,''"] fa fb
  show ?thesis by simp
qed

section \<open>Delimiter detection\<close>

text \<open>What the proofs use of the rounding: it keeps zero, one and two, and it does not
  take a value below the power of two under it.\<close>

lemma round_even_ge_floor: "\<lfloor>y\<rfloor> \<le> round_even y"
  by (simp add: round_even_def)

lemma round_even_of_int: "round_even (of_int m) = m"
  by (simp add: round_even_def)

lemma two_powr_52: "(2::real) powr 52 = of_int (2 ^ 52)"
  by (simp add: powr_numeral)

lemma ulp_split: "(2::real) powr 52 * 2 powr of_int (b - 52) = 2 powr of_int b"
proof -
  have "(2::real) powr 52 * 2 powr of_int (b - 52) = 2 powr (52 + of_int (b - 52))"
    by (simp only: powr_add)
  then show ?thesis by simp
qed

lemma rnd_nonneg: "0 \<le> x \<Longrightarrow> 0 \<le> rnd x"
proof -
  assume x: "0 \<le> x"
  show ?thesis
  proof (cases "x = 0")
    case True
    then show ?thesis by (simp add: rnd_def)
  next
    case False
    define u :: real where "u = 2 powr of_int (binade x - 52)"
    have u: "0 < u" by (simp add: u_def)
    with x have "0 \<le> x / u" by simp
    then have "0 \<le> \<lfloor>x / u\<rfloor>" by simp
    with round_even_ge_floor [of "x / u"] have "0 \<le> round_even (x / u)" by linarith
    then have "0 \<le> of_int (round_even (x / u)) * u" using u by simp
    with False show ?thesis by (simp only: rnd_def u_def if_False)
  qed
qed

lemma rnd_ge_pow2:
  assumes "- 1022 \<le> k" and "2 powr of_int k \<le> x"
  shows "2 powr of_int k \<le> rnd x"
proof -
  have "(0::real) < 2 powr of_int k" by simp
  with assms(2) have pos: "0 < x" by linarith
  then have "log 2 (2 powr of_int k) \<le> log 2 x"
    using assms(2) by (simp del: log_powr_cancel)
  then have "of_int k \<le> log 2 x" by simp
  then have kf: "k \<le> \<lfloor>log 2 x\<rfloor>" by (simp add: le_floor_iff)
  define b where "b = binade x"
  from kf assms(1) pos have b: "b = \<lfloor>log 2 x\<rfloor>" by (simp add: b_def binade_def)
  define u :: real where "u = 2 powr of_int (b - 52)"
  have u: "0 < u" by (simp add: u_def)
  have "of_int b \<le> log 2 x" by (simp add: b)
  then have "(2::real) powr of_int b \<le> 2 powr log 2 x" by simp
  with pos have bx: "2 powr of_int b \<le> x" by simp
  have split: "2 powr 52 * u = 2 powr of_int b"
    unfolding u_def by (rule ulp_split)
  from bx split u have "2 powr 52 \<le> x / u" by (simp add: pos_le_divide_eq)
  then have "(2 ^ 52 :: int) \<le> \<lfloor>x / u\<rfloor>"
    unfolding two_powr_52 by (simp only: le_floor_iff)
  with round_even_ge_floor [of "x / u"] have "(2 ^ 52 :: int) \<le> round_even (x / u)" by linarith
  then have "of_int (2 ^ 52) \<le> (of_int (round_even (x / u)) :: real)" by (simp only: of_int_le_iff)
  then have "2 powr 52 * u \<le> of_int (round_even (x / u)) * u"
    unfolding two_powr_52 using u by (simp only: mult_le_cancel_right_pos)
  moreover have "rnd x = of_int (round_even (x / u)) * u"
    using pos by (simp add: rnd_def b_def u_def)
  ultimately have "2 powr of_int b \<le> rnd x" by (simp only: split)
  moreover from kf have "(2::real) powr of_int k \<le> 2 powr of_int b" by (simp add: b)
  ultimately show ?thesis by (rule order_trans [rotated])
qed

lemma rnd_ge_1: "1 \<le> x \<Longrightarrow> 1 \<le> rnd x"
  using rnd_ge_pow2 [of 0 x] by simp

lemma rnd_ge_2: "2 \<le> x \<Longrightarrow> 2 \<le> rnd x"
  using rnd_ge_pow2 [of 1 x] by simp

lemma rnd_pow2:
  assumes "- 1022 \<le> k"
  shows "rnd (2 powr of_int k) = 2 powr of_int k"
proof -
  define u :: real where "u = 2 powr of_int (k - 52)"
  have u: "0 < u" by (simp add: u_def)
  have b: "binade (2 powr of_int k) = k" using assms by (simp add: binade_def)
  have split: "2 powr 52 * u = 2 powr of_int k" unfolding u_def by (rule ulp_split)
  then have "2 powr of_int k / u = 2 powr 52" using u by (simp add: field_simps)
  then have q: "2 powr of_int k / u = of_int (2 ^ 52)" by (simp only: two_powr_52)
  have "rnd (2 powr of_int k) = of_int (round_even (2 powr of_int k / u)) * u"
    by (simp add: rnd_def b u_def)
  also have "\<dots> = of_int (2 ^ 52) * u" by (simp only: q round_even_of_int)
  also have "\<dots> = 2 powr of_int k" using split by (simp only: two_powr_52)
  finally show ?thesis .
qed

lemma rnd_1: "rnd 1 = 1"
  using rnd_pow2 [of 0] by simp

lemma rnd_2: "rnd 2 = 2"
  using rnd_pow2 [of 1] by simp

lemma rnd_0: "rnd 0 = 0"
  by (simp add: rnd_def)

text \<open>The value of a rounding is fixed by the binade of the argument and the nearest
  multiple of the spacing there; for a square root, by the two squares around the
  argument.\<close>

lemma round_evenI:
  assumes "of_int M - 1 / 2 < y" and "y < of_int M + 1 / 2"
  shows "round_even y = M"
proof (cases "of_int M \<le> y")
  case True
  with assms have "\<lfloor>y\<rfloor> = M" by (intro floor_unique) simp_all
  with assms show ?thesis by (simp add: round_even_def)
next
  case False
  with assms have "\<lfloor>y\<rfloor> = M - 1" by (intro floor_unique) simp_all
  with assms show ?thesis by (simp add: round_even_def)
qed

lemma rnd_eqI:
  fixes x r :: real
  assumes e: "e \<le> 1074"
    and lo: "2 ^ 52 \<le> \<bar>x\<bar> * 2 ^ e"
    and hi: "\<bar>x\<bar> * 2 ^ e < 2 ^ 53"
    and M: "round_even (x * 2 ^ e) = M"
    and r: "r * 2 ^ e = of_int M"
  shows "rnd x = r"
proof -
  define k where "k = 52 - int e"
  have pk: "(2::real) powr of_int k = 2 ^ 52 / 2 ^ e"
    by (simp add: k_def powr_diff powr_realpow)
  have pk1: "(2::real) powr (of_int k + 1) = 2 ^ 53 / 2 ^ e"
    by (simp add: powr_add pk)
  from lo have x0: "x \<noteq> 0" by auto
  then have pos: "0 < \<bar>x\<bar>" by simp
  from lo have "2 powr of_int k \<le> \<bar>x\<bar>" by (simp add: pk pos_divide_le_eq)
  with pos have l1: "of_int k \<le> log 2 \<bar>x\<bar>" by (simp add: le_log_iff)
  from hi have "\<bar>x\<bar> < 2 powr (of_int k + 1)" by (simp add: pk1 pos_less_divide_eq)
  with pos have l2: "log 2 \<bar>x\<bar> < of_int k + 1" by (simp add: log_less_iff)
  from l1 l2 have "\<lfloor>log 2 \<bar>x\<bar>\<rfloor> = k" by (intro floor_unique)
  with e have b: "binade x = k" by (simp add: binade_def k_def)
  have "real_of_int k - 52 = - real e" by (simp add: k_def)
  then have ulp: "(2::real) powr (of_int k - 52) = 1 / 2 ^ e"
    by (simp add: powr_minus powr_realpow inverse_eq_divide)
  from r have "r = of_int M / 2 ^ e" by (simp add: field_simps)
  with x0 M show ?thesis by (simp add: rnd_def b ulp)
qed

lemma rnd_sqrtI:
  fixes q r :: real
  assumes e: "e \<le> 1074"
    and lo: "2 ^ 52 < M"
    and hi: "M < 2 ^ 53"
    and below: "(of_int M - 1 / 2) * (of_int M - 1 / 2) < q * 4 ^ e"
    and above: "q * 4 ^ e < (of_int M + 1 / 2) * (of_int M + 1 / 2)"
    and r: "r * 2 ^ e = of_int M"
  shows "rnd (sqrt q) = r"
proof -
  have "(4::real) ^ e = (2 * 2) ^ e" by simp
  also have "\<dots> = (2 ^ e)\<^sup>2" by (simp only: power_mult_distrib power2_eq_square)
  finally have y: "sqrt q * 2 ^ e = sqrt (q * 4 ^ e)" by (simp add: real_sqrt_mult)
  from lo have Mpos: "(0::real) \<le> of_int M + 1 / 2" by simp
  from below have b1: "of_int M - 1 / 2 < sqrt q * 2 ^ e"
    unfolding y by (intro real_less_rsqrt) (simp add: power2_eq_square)
  from above Mpos have b2: "sqrt q * 2 ^ e < of_int M + 1 / 2"
    unfolding y by (intro real_less_lsqrt) (simp_all add: power2_eq_square)
  from lo have "2 ^ 52 + 1 \<le> M" by simp
  then have "real_of_int (2 ^ 52 + 1) \<le> of_int M" by (simp only: of_int_le_iff)
  then have "(2::real) ^ 52 + 1 \<le> of_int M" by simp
  with b1 have l: "2 ^ 52 \<le> sqrt q * 2 ^ e" by simp
  from b1 lo have nn: "0 \<le> sqrt q * 2 ^ e" by simp
  moreover have "\<not> (2::real) ^ e \<le> 0" by (simp add: not_le)
  ultimately have sq: "0 \<le> sqrt q" by (auto simp: zero_le_mult_iff)
  from hi have "M + 1 \<le> 2 ^ 53" by simp
  then have "real_of_int (M + 1) \<le> of_int (2 ^ 53)" by (simp only: of_int_le_iff)
  then have "of_int M + 1 \<le> (2::real) ^ 53" by simp
  with b2 have h: "sqrt q * 2 ^ e < 2 ^ 53" by simp
  from sq have a: "\<bar>sqrt q\<bar> = sqrt q" by simp
  show ?thesis
    by (rule rnd_eqI [OF e _ _ round_evenI [OF b1 b2] r]) (simp_all only: a l h)
qed

lemma count_fields_loop_absent:
  "delim \<notin> set line \<Longrightarrow> count_fields_loop line delim q n = n"
  by (induction line arbitrary: q n) auto

lemma count_fields_absent: "delim \<notin> set line \<Longrightarrow> count_fields line delim = 1"
  by (simp add: count_fields_def count_fields_loop_absent)

lemma view_subset: "set (view data s n) \<subseteq> set data"
  unfolding view_def by (meson set_take_subset set_drop_subset subset_trans)

lemma field_counts_absent:
  "c \<notin> set data \<Longrightarrow> field_counts data lines c = replicate (length lines) 1"
proof -
  assume a: "c \<notin> set data"
  have "\<And>l :: LineSpan. count_fields (view data (l_start l) (l_len l)) c = 1"
    using a view_subset by (intro count_fields_absent) blast
  then have "field_counts data lines c = map (\<lambda>l. 1) lines"
    by (simp add: field_counts_def)
  then show ?thesis by (simp add: map_replicate_const)
qed

lemma mean_count_ones: "n \<noteq> 0 \<Longrightarrow> mean_count (replicate n 1) = 1"
  by (simp add: mean_count_def sum_list_replicate rnd_1)

lemma candidate_step_absent:
  "lines \<noteq> [] \<Longrightarrow> c \<notin> set data \<Longrightarrow> candidate_step data lines st c = st"
  by (simp add: candidate_step_def field_counts_absent mean_count_ones)

lemma sum_field_counts_ge:
  "\<forall>l \<in> set lines. 2 \<le> count_fields (view data (l_start l) (l_len l)) d \<Longrightarrow>
   2 * real (length lines) \<le> sum_list (field_counts data lines d)"
  by (induction lines) (auto simp: field_counts_def)

lemma mean_count_ge:
  assumes "lines \<noteq> []"
    and "\<forall>l \<in> set lines. 2 \<le> count_fields (view data (l_start l) (l_len l)) d"
  shows "2 \<le> mean_count (field_counts data lines d)"
proof -
  have len: "length (field_counts data lines d) = length lines"
    by (simp add: field_counts_def)
  from assms(1) have pos: "0 < real (length lines)" by simp
  from sum_field_counts_ge [OF assms(2)] pos
  have "2 \<le> sum_list (field_counts data lines d) / real (length lines)"
    by (simp add: pos_le_divide_eq)
  then have "2 \<le> rnd (sum_list (field_counts data lines d) / real (length lines))"
    by (rule rnd_ge_2)
  then show ?thesis by (simp add: mean_count_def len)
qed

lemma var_loop_nonneg:
  "0 \<le> var \<Longrightarrow>
   0 \<le> foldl (\<lambda>var v. rnd (var + rnd (rnd (v - mean) * rnd (v - mean)))) var counts"
proof (induction counts arbitrary: var)
  case Nil
  then show ?case by simp
next
  case (Cons v counts)
  have "0 \<le> rnd (rnd (v - mean) * rnd (v - mean))" by (rule rnd_nonneg) simp
  with Cons.prems have "0 \<le> rnd (var + rnd (rnd (v - mean) * rnd (v - mean)))"
    by (intro rnd_nonneg) simp
  from Cons.IH [OF this] show ?case by simp
qed

lemma score_of_nonneg: "0 \<le> mean_count counts \<Longrightarrow> 0 \<le> score_of counts"
proof -
  assume m: "0 \<le> mean_count counts"
  define var where "var = foldl (\<lambda>var v. rnd (var + rnd (rnd (v - mean_count counts)
      * rnd (v - mean_count counts)))) 0 counts"
  define stddev where "stddev = rnd (sqrt (rnd (var / real (length counts))))"
  have "0 \<le> var" unfolding var_def by (rule var_loop_nonneg) simp
  then have "0 \<le> rnd (var / real (length counts))" by (intro rnd_nonneg) simp
  then have "0 \<le> stddev" unfolding stddev_def by (intro rnd_nonneg) simp
  then have "1 \<le> rnd (1 + stddev)" by (intro rnd_ge_1) simp
  with m have "0 \<le> mean_count counts / rnd (1 + stddev)" by simp
  then have "0 \<le> rnd (mean_count counts / rnd (1 + stddev))" by (rule rnd_nonneg)
  then show ?thesis by (simp add: score_of_def Let_def var_def stddev_def)
qed

lemma candidate_step_take:
  assumes "2 \<le> mean_count (field_counts data lines d)" and "snd st < 0"
  shows "candidate_step data lines st d = (d, score_of (field_counts data lines d))"
proof -
  from assms(1) have "0 \<le> score_of (field_counts data lines d)"
    by (intro score_of_nonneg) simp
  with assms show ?thesis by (simp add: candidate_step_def Let_def)
qed

lemma foldl_absent:
  "lines \<noteq> [] \<Longrightarrow> \<forall>c \<in> set cs. c \<notin> set data \<Longrightarrow> foldl (candidate_step data lines) st cs = st"
  by (induction cs arbitrary: st) (simp_all add: candidate_step_absent)

lemma foldl_only:
  assumes "lines \<noteq> []" and "d \<in> set cs" and "distinct cs"
    and "\<forall>c \<in> set cs. c \<noteq> d \<longrightarrow> c \<notin> set data"
    and "2 \<le> mean_count (field_counts data lines d)" and "snd st < 0"
  shows "fst (foldl (candidate_step data lines) st cs) = d"
  using assms(2-4)
proof (induction cs)
  case Nil
  then show ?case by simp
next
  case (Cons c cs)
  show ?case
  proof (cases "c = d")
    case True
    with Cons.prems have "\<forall>x \<in> set cs. x \<notin> set data" by auto
    with True show ?thesis
      by (simp add: candidate_step_take [OF assms(5,6)] foldl_absent [OF assms(1)])
  next
    case False
    with Cons.prems have "c \<notin> set data" "d \<in> set cs" "distinct cs"
      "\<forall>x \<in> set cs. x \<noteq> d \<longrightarrow> x \<notin> set data" by auto
    with Cons.IH show ?thesis by (simp add: candidate_step_absent [OF assms(1)])
  qed
qed

lemma foldl_none:
  "\<forall>c \<in> set cs. mean_count (field_counts data lines c) < 2 \<Longrightarrow>
   foldl (candidate_step data lines) st cs = st"
  by (induction cs arbitrary: st) (simp_all add: candidate_step_def)

lemma collect_lines_Nil: "collect_lines [] n pos lines = lines"
  by (subst collect_lines.simps) simp

text \<open>An input that contains a candidate byte has a line to sample.\<close>

lemma quote_scan_stops_at_newline:
  "quote_scan base tot q i = p \<Longrightarrow> p < tot \<Longrightarrow> base ! p = newline"
proof (induction base tot q i rule: quote_scan.induct)
  case (1 base tot q i)
  show ?case
  proof (cases "i < tot")
    case False
    with "1.prems" show ?thesis by (subst (asm) quote_scan.simps) simp
  next
    case lt: True
    show ?thesis
    proof (cases "base ! i = dquote")
      case True
      with lt "1.prems"(1) have "quote_scan base tot (\<not> q) (i + 1) = p"
        by (subst (asm) quote_scan.simps) simp
      from "1.IH"(1) [OF lt True this "1.prems"(2)] show ?thesis .
    next
      case nq: False
      show ?thesis
      proof (cases "\<not> q \<and> base ! i = newline")
        case True
        with lt nq "1.prems"(1) have "p = i" by (subst (asm) quote_scan.simps) simp
        with True show ?thesis by simp
      next
        case False
        with lt nq "1.prems"(1) have "quote_scan base tot q (i + 1) = p"
          by (subst (asm) quote_scan.simps) auto
        from "1.IH"(2) [OF lt nq False this "1.prems"(2)] show ?thesis .
      qed
    qed
  qed
qed

lemma collect_lines_step:
  "pos < length data \<Longrightarrow> length lines < n \<Longrightarrow>
   collect_lines data n pos lines =
     collect_lines data n (next_pos (length data) (quote_scan data (length data) False pos))
       (if trim_cr data pos (quote_scan data (length data) False pos) > pos
        then lines @ [\<lparr>l_start = pos,
                        l_len = trim_cr data pos (quote_scan data (length data) False pos) - pos\<rparr>]
        else lines)"
  by (subst collect_lines.simps) simp

lemma collect_lines_stop:
  "\<not> (pos < length data \<and> length lines < n) \<Longrightarrow> collect_lines data n pos lines = lines"
  by (subst collect_lines.simps) auto

lemma collect_lines_keeps: "lines \<noteq> [] \<Longrightarrow> collect_lines data n pos lines \<noteq> []"
proof (induction data n pos lines rule: collect_lines.induct)
  case (1 data n pos lines)
  show ?case
  proof (cases "pos < length data \<and> length lines < n")
    case False
    with "1.prems" show ?thesis by (simp add: collect_lines_stop)
  next
    case True
    then have "collect_lines data n pos lines =
      collect_lines data n (next_pos (length data) (quote_scan data (length data) False pos))
       (if trim_cr data pos (quote_scan data (length data) False pos) > pos
        then lines @ [\<lparr>l_start = pos,
                        l_len = trim_cr data pos (quote_scan data (length data) False pos) - pos\<rparr>]
        else lines)" by (simp add: collect_lines_step)
    moreover have "collect_lines data n (next_pos (length data) (quote_scan data (length data) False pos))
       (if trim_cr data pos (quote_scan data (length data) False pos) > pos
        then lines @ [\<lparr>l_start = pos,
                        l_len = trim_cr data pos (quote_scan data (length data) False pos) - pos\<rparr>]
        else lines) \<noteq> []"
      using "1.prems" by (intro "1.IH" [OF True]) simp
    ultimately show ?thesis by simp
  qed
qed

lemma collect_lines_samples:
  assumes "1 \<le> n" and "d \<noteq> newline" and "d \<noteq> cret"
  shows "d \<in> set (drop pos data) \<Longrightarrow> collect_lines data n pos [] \<noteq> []"
proof (induction "length data - pos" arbitrary: pos rule: less_induct)
  case less
  let ?len = "length data"
  let ?p = "quote_scan data ?len False pos"
  from less.prems have lt: "pos < ?len" by (cases "pos < ?len") auto
  from assms(1) have n: "length ([] :: LineSpan list) < n" by simp
  have ge: "pos \<le> ?p" using lt by (intro quote_scan_ge) simp
  note step = collect_lines_step [OF lt n]
  show ?case
  proof (cases "trim_cr data pos ?p > pos")
    case True
    then show ?thesis by (simp add: step collect_lines_keeps)
  next
    case False
    have here: "drop pos data = data ! pos # drop (Suc pos) data"
      using lt by (simp add: Cons_nth_drop_Suc)
    have next_in: "d \<in> set (drop (next_pos ?len ?p) data)"
    proof (cases "?p = pos")
      case True
      with lt have "data ! pos = newline" by (intro quote_scan_stops_at_newline [of data ?len False pos]) simp_all
      with less.prems assms(2) here have "d \<in> set (drop (Suc pos) data)" by auto
      with True lt show ?thesis by (simp add: next_pos_def)
    next
      case neq: False
      with ge have gt: "pos < ?p" by simp
      with False have p1: "?p = pos + 1"
        by (auto simp: trim_cr_def split: if_splits)
      with False have cr: "data ! pos = cret"
        by (auto simp: trim_cr_def split: if_splits)
      from less.prems assms(3) here cr have in1: "d \<in> set (drop (Suc pos) data)" by auto
      then have lt1: "Suc pos < ?len" by (cases "Suc pos < ?len") auto
      with p1 have "data ! (Suc pos) = newline"
        using quote_scan_stops_at_newline [of data ?len False pos "Suc pos"] by simp
      moreover have "drop (Suc pos) data = data ! Suc pos # drop (Suc (Suc pos)) data"
        using lt1 by (simp add: Cons_nth_drop_Suc)
      ultimately have "d \<in> set (drop (Suc (Suc pos)) data)" using in1 assms(2) by auto
      with p1 lt1 show ?thesis by (simp add: next_pos_def)
    qed
    have dec: "?len - next_pos ?len ?p < ?len - pos" by (rule next_pos_scan_progress [OF lt])
    from less.hyps [OF dec next_in] False show ?thesis by (simp add: step)
  qed
qed

lemma candidate_bytes: "d \<in> set candidates \<Longrightarrow> d \<noteq> newline \<and> d \<noteq> cret"
  by (auto simp: candidates_def)

text \<open>C6: for a candidate \<open>d\<close>, an input that contains \<open>d\<close> and no other candidate byte,
  sampled with a limit of at least one line and with at least two fields on every sampled
  line, is detected as \<open>d\<close>-separated. The empty input gives the comma, and so does an input
  on which no candidate reaches a mean field count of 2.\<close>

theorem detect_delimiter_single_separator:
  "(d \<in> set candidates \<and> d \<in> set data \<and> 1 \<le> n
    \<and> (\<forall>c \<in> set candidates. c \<noteq> d \<longrightarrow> c \<notin> set data)
    \<and> (\<forall>l \<in> set (collect_lines data n 0 []).
          2 \<le> count_fields (view data (l_start l) (l_len l)) d)
    \<longrightarrow> detect_delimiter data n = d)
   \<and> detect_delimiter [] n = comma
   \<and> ((\<forall>c \<in> set candidates.
          mean_count (field_counts data (collect_lines data n 0 []) c) < 2)
       \<longrightarrow> detect_delimiter data n = comma)"
proof (intro conjI impI)
  assume h: "d \<in> set candidates \<and> d \<in> set data \<and> 1 \<le> n
    \<and> (\<forall>c \<in> set candidates. c \<noteq> d \<longrightarrow> c \<notin> set data)
    \<and> (\<forall>l \<in> set (collect_lines data n 0 []).
          2 \<le> count_fields (view data (l_start l) (l_len l)) d)"
  let ?lines = "collect_lines data n 0 []"
  from h candidate_bytes [of d] have ne: "?lines \<noteq> []"
    by (intro collect_lines_samples [of n d 0 data]) simp_all
  from h have dne: "data \<noteq> []" by auto
  have dist: "distinct candidates" by (simp add: candidates_def)
  from h have mean: "2 \<le> mean_count (field_counts data ?lines d)"
    by (intro mean_count_ge [OF ne]) blast
  have "fst (foldl (candidate_step data ?lines) (comma, - 1) candidates) = d"
    using h by (intro foldl_only [OF ne _ dist _ mean]) auto
  with ne dne show "detect_delimiter data n = d"
    by (simp add: detect_delimiter_def Let_def)
next
  show "detect_delimiter [] n = comma" by (simp add: detect_delimiter_def)
next
  assume "\<forall>c \<in> set candidates.
          mean_count (field_counts data (collect_lines data n 0 []) c) < 2"
  then show "detect_delimiter data n = comma"
    by (simp add: detect_delimiter_def Let_def foldl_none)
qed


theorem detect_delimiter_single_separator_witness:
  "detect_delimiter (''a|b'' @ [newline] @ ''c|d'' @ [newline]) 10 = CHR ''|''
   \<and> detect_delimiter [] 10 = comma
   \<and> detect_delimiter (''abc'' @ [newline]) 10 = comma"
proof -
  let ?D = "''a|b'' @ [newline] @ ''c|d'' @ [newline]"
  let ?E = "[CHR ''a'', CHR ''b'', CHR ''c'', newline]"
  have h1: "CHR ''|'' \<in> set candidates \<and> CHR ''|'' \<in> set ?D \<and> (1 :: nat) \<le> 10
      \<and> (\<forall>c \<in> set candidates. c \<noteq> CHR ''|'' \<longrightarrow> c \<notin> set ?D)
      \<and> (\<forall>l \<in> set (collect_lines ?D 10 0 []).
            2 \<le> count_fields (view ?D (l_start l) (l_len l)) CHR ''|'')"
    by code_simp
  have lines: "collect_lines ?E 10 0 [] = [\<lparr>l_start = 0, l_len = 3\<rparr>]" by code_simp
  have cnt: "\<forall>c \<in> set candidates. count_fields (view ?E 0 3) c = 1" by code_simp
  have h3: "\<forall>c \<in> set candidates. mean_count (field_counts ?E (collect_lines ?E 10 0 []) c) < 2"
    using cnt by (simp add: lines field_counts_def mean_count_def rnd_1)
  from detect_delimiter_single_separator [of "CHR ''|''" ?D 10] h1
  have "detect_delimiter ?D 10 = CHR ''|''" by blast
  moreover from detect_delimiter_single_separator [of comma ?E 10] h3
  have "detect_delimiter [] 10 = comma" and "detect_delimiter ?E 10 = comma" by blast+
  ultimately show ?thesis by simp
qed

lemma mean_count_Nil: "mean_count (field_counts data [] c) = 0"
  by (simp add: mean_count_def field_counts_def rnd_0)

lemma foldl_keep:
  "\<forall>c \<in> set cs. 2 \<le> mean_count (field_counts data lines c) \<longrightarrow>
        score_of (field_counts data lines c) \<le> snd st \<Longrightarrow>
   foldl (candidate_step data lines) st cs = st"
proof (induction cs)
  case Nil
  show ?case by simp
next
  case (Cons c cs)
  then have "candidate_step data lines st c = st"
    by (auto simp: candidate_step_def Let_def)
  with Cons show ?case by simp
qed

lemma foldl_first_best:
  assumes "i < length cs"
    and "2 \<le> mean_count (field_counts data lines (cs ! i))"
    and "snd st < score_of (field_counts data lines (cs ! i))"
    and "\<forall>j < length cs. 2 \<le> mean_count (field_counts data lines (cs ! j)) \<longrightarrow>
           score_of (field_counts data lines (cs ! j)) \<le> score_of (field_counts data lines (cs ! i))"
    and "\<forall>j < i. 2 \<le> mean_count (field_counts data lines (cs ! j)) \<longrightarrow>
           score_of (field_counts data lines (cs ! j)) < score_of (field_counts data lines (cs ! i))"
  shows "foldl (candidate_step data lines) st cs
           = (cs ! i, score_of (field_counts data lines (cs ! i)))"
  using assms
proof (induction cs arbitrary: st i)
  case Nil
  then show ?case by simp
next
  case (Cons c cs)
  show ?case
  proof (cases i)
    case 0
    with Cons.prems(2,3)
    have step: "candidate_step data lines st c = (c, score_of (field_counts data lines c))"
      by (simp add: candidate_step_def Let_def)
    have "\<forall>x \<in> set cs. 2 \<le> mean_count (field_counts data lines x) \<longrightarrow>
        score_of (field_counts data lines x) \<le> score_of (field_counts data lines c)"
    proof
      fix x assume "x \<in> set cs"
      then obtain k where k: "k < length cs" "cs ! k = x" by (auto simp: in_set_conv_nth)
      with Cons.prems(4) [rule_format, of "Suc k"] 0
      show "2 \<le> mean_count (field_counts data lines x) \<longrightarrow>
        score_of (field_counts data lines x) \<le> score_of (field_counts data lines c)"
        by simp
    qed
    then have "foldl (candidate_step data lines) (c, score_of (field_counts data lines c)) cs
        = (c, score_of (field_counts data lines c))"
      by (intro foldl_keep) simp
    with 0 step show ?thesis by simp
  next
    case (Suc i')
    let ?best = "score_of (field_counts data lines (cs ! i'))"
    let ?st = "candidate_step data lines st c"
    from Suc Cons.prems(1) have a1: "i' < length cs" by simp
    from Suc Cons.prems(2) have a2: "2 \<le> mean_count (field_counts data lines (cs ! i'))" by simp
    from Suc Cons.prems(3) have lt: "snd st < ?best" by simp
    from Suc Cons.prems(5) [rule_format, of 0]
    have c: "2 \<le> mean_count (field_counts data lines c) \<longrightarrow>
        score_of (field_counts data lines c) < ?best" by simp
    have a3: "snd ?st < ?best"
      using lt c by (auto simp: candidate_step_def Let_def)
    have a4: "\<forall>j < length cs. 2 \<le> mean_count (field_counts data lines (cs ! j)) \<longrightarrow>
           score_of (field_counts data lines (cs ! j)) \<le> ?best"
    proof (intro allI impI)
      fix j assume "j < length cs" "2 \<le> mean_count (field_counts data lines (cs ! j))"
      with Cons.prems(4) [rule_format, of "Suc j"] Suc
      show "score_of (field_counts data lines (cs ! j)) \<le> ?best" by simp
    qed
    have a5: "\<forall>j < i'. 2 \<le> mean_count (field_counts data lines (cs ! j)) \<longrightarrow>
           score_of (field_counts data lines (cs ! j)) < ?best"
    proof (intro allI impI)
      fix j assume "j < i'" "2 \<le> mean_count (field_counts data lines (cs ! j))"
      with Cons.prems(5) [rule_format, of "Suc j"] Suc
      show "score_of (field_counts data lines (cs ! j)) < ?best" by simp
    qed
    from Cons.IH [OF a1 a2 a3 a4 a5] Suc show ?thesis by simp
  qed
qed

text \<open>Two lists that hold the same counts in another order. Their sums, hence their means,
  are the same \<open>double\<close>; the running sums of the squared deviations round differently,
  and the two scores differ in the last bit.\<close>

lemma mean_count_comma_example: "mean_count [1, 1, 3, 6, 1] = 5404319552844595 / 2 ^ 51"
proof -
  have "rnd (12 / 5) = 5404319552844595 / 2 ^ 51"
    by (rule rnd_eqI [where e = 51 and M = "5404319552844595"]) (simp_all add: round_even_def)
  then show ?thesis by (simp add: mean_count_def)
qed

lemma score_of_comma_example: "score_of [1, 1, 3, 6, 1] = 7304141825757366 / 2 ^ 53"
proof -
  have len: "real (length ([1, 1, 3, 6, 1] :: real list)) = 5" by simp
  have r1: "rnd (1 - 5404319552844595 / 2 ^ 51) = - 6305039478318694 / 2 ^ 52"
    by (rule rnd_eqI [where e = 52 and M = "- 6305039478318694"]) (simp_all add: round_even_def)
  have r2: "rnd ((- 6305039478318694 / 2 ^ 52) * (- 6305039478318694 / 2 ^ 52)) = 8827055269646171 / 2 ^ 52"
    by (rule rnd_eqI [where e = 52 and M = "8827055269646171"]) (simp_all add: round_even_def)
  have r3: "rnd (0 + 8827055269646171 / 2 ^ 52) = 8827055269646171 / 2 ^ 52"
    by (rule rnd_eqI [where e = 52 and M = "8827055269646171"]) (simp_all add: round_even_def)
  have r4: "rnd (8827055269646171 / 2 ^ 52 + 8827055269646171 / 2 ^ 52) = 8827055269646171 / 2 ^ 51"
    by (rule rnd_eqI [where e = 51 and M = "8827055269646171"]) (simp_all add: round_even_def)
  have r5: "rnd (3 - 5404319552844595 / 2 ^ 51) = 5404319552844596 / 2 ^ 53"
    by (rule rnd_eqI [where e = 53 and M = "5404319552844596"]) (simp_all add: round_even_def)
  have r6: "rnd ((5404319552844596 / 2 ^ 53) * (5404319552844596 / 2 ^ 53)) = 6485183463413516 / 2 ^ 54"
    by (rule rnd_eqI [where e = 54 and M = "6485183463413516"]) (simp_all add: round_even_def)
  have r7: "rnd (8827055269646171 / 2 ^ 51 + 6485183463413516 / 2 ^ 54) = 4818851601286430 / 2 ^ 50"
    by (rule rnd_eqI [where e = 50 and M = "4818851601286430"]) (simp_all add: round_even_def)
  have r8: "rnd (6 - 5404319552844595 / 2 ^ 51) = 8106479329266893 / 2 ^ 51"
    by (rule rnd_eqI [where e = 51 and M = "8106479329266893"]) (simp_all add: round_even_def)
  have r9: "rnd ((8106479329266893 / 2 ^ 51) * (8106479329266893 / 2 ^ 51)) = 7295831396340204 / 2 ^ 49"
    by (rule rnd_eqI [where e = 49 and M = "7295831396340204"]) (simp_all add: round_even_def)
  have r10: "rnd (4818851601286430 / 2 ^ 50 + 7295831396340204 / 2 ^ 49) = 4852628598491710 / 2 ^ 48"
    by (rule rnd_eqI [where e = 48 and M = "4852628598491710"]) (simp_all add: round_even_def)
  have r11: "rnd (4852628598491710 / 2 ^ 48 + 8827055269646171 / 2 ^ 52) = 5404319552844596 / 2 ^ 48"
    by (rule rnd_eqI [where e = 48 and M = "5404319552844596"]) (simp_all add: round_even_def)
  have r12: "rnd ((5404319552844596 / 2 ^ 48) / 5) = 8646911284551354 / 2 ^ 51"
    by (rule rnd_eqI [where e = 51 and M = "8646911284551354"]) (simp_all add: round_even_def)
  have r13: "rnd (sqrt (8646911284551354 / 2 ^ 51)) = 8825216874276939 / 2 ^ 52"
    by (rule rnd_sqrtI [where e = 52 and M = "8825216874276939"]) simp_all
  have r14: "rnd (1 + 8825216874276939 / 2 ^ 52) = 6664408250823718 / 2 ^ 51"
    by (rule rnd_eqI [where e = 51 and M = "6664408250823718"]) (simp_all add: round_even_def)
  have r15: "rnd ((5404319552844595 / 2 ^ 51) / (6664408250823718 / 2 ^ 51)) = 7304141825757366 / 2 ^ 53"
    by (rule rnd_eqI [where e = 53 and M = "7304141825757366"]) (simp_all add: round_even_def)
  show ?thesis
    by (simp only: score_of_def Let_def foldl.simps len mean_count_comma_example
          r1 r2 r3 r4 r5 r6 r7 r8 r9 r10 r11 r12 r13 r14 r15)
qed

lemma mean_count_semicolon_example: "mean_count [1, 6, 1, 1, 3] = 5404319552844595 / 2 ^ 51"
proof -
  have "rnd (12 / 5) = 5404319552844595 / 2 ^ 51"
    by (rule rnd_eqI [where e = 51 and M = "5404319552844595"]) (simp_all add: round_even_def)
  then show ?thesis by (simp add: mean_count_def)
qed

lemma score_of_semicolon_example: "score_of [1, 6, 1, 1, 3] = 7304141825757367 / 2 ^ 53"
proof -
  have len: "real (length ([1, 6, 1, 1, 3] :: real list)) = 5" by simp
  have r1: "rnd (1 - 5404319552844595 / 2 ^ 51) = - 6305039478318694 / 2 ^ 52"
    by (rule rnd_eqI [where e = 52 and M = "- 6305039478318694"]) (simp_all add: round_even_def)
  have r2: "rnd ((- 6305039478318694 / 2 ^ 52) * (- 6305039478318694 / 2 ^ 52)) = 8827055269646171 / 2 ^ 52"
    by (rule rnd_eqI [where e = 52 and M = "8827055269646171"]) (simp_all add: round_even_def)
  have r3: "rnd (0 + 8827055269646171 / 2 ^ 52) = 8827055269646171 / 2 ^ 52"
    by (rule rnd_eqI [where e = 52 and M = "8827055269646171"]) (simp_all add: round_even_def)
  have r4: "rnd (6 - 5404319552844595 / 2 ^ 51) = 8106479329266893 / 2 ^ 51"
    by (rule rnd_eqI [where e = 51 and M = "8106479329266893"]) (simp_all add: round_even_def)
  have r5: "rnd ((8106479329266893 / 2 ^ 51) * (8106479329266893 / 2 ^ 51)) = 7295831396340204 / 2 ^ 49"
    by (rule rnd_eqI [where e = 49 and M = "7295831396340204"]) (simp_all add: round_even_def)
  have r6: "rnd (8827055269646171 / 2 ^ 52 + 7295831396340204 / 2 ^ 49) = 8399213305045975 / 2 ^ 49"
    by (rule rnd_eqI [where e = 49 and M = "8399213305045975"]) (simp_all add: round_even_def)
  have r7: "rnd (8399213305045975 / 2 ^ 49 + 8827055269646171 / 2 ^ 52) = 4751297606875873 / 2 ^ 48"
    by (rule rnd_eqI [where e = 48 and M = "4751297606875873"]) (simp_all add: round_even_def)
  have r8: "rnd (4751297606875873 / 2 ^ 48 + 8827055269646171 / 2 ^ 52) = 5302988561228759 / 2 ^ 48"
    by (rule rnd_eqI [where e = 48 and M = "5302988561228759"]) (simp_all add: round_even_def)
  have r9: "rnd (3 - 5404319552844595 / 2 ^ 51) = 5404319552844596 / 2 ^ 53"
    by (rule rnd_eqI [where e = 53 and M = "5404319552844596"]) (simp_all add: round_even_def)
  have r10: "rnd ((5404319552844596 / 2 ^ 53) * (5404319552844596 / 2 ^ 53)) = 6485183463413516 / 2 ^ 54"
    by (rule rnd_eqI [where e = 54 and M = "6485183463413516"]) (simp_all add: round_even_def)
  have r11: "rnd (5302988561228759 / 2 ^ 48 + 6485183463413516 / 2 ^ 54) = 5404319552844595 / 2 ^ 48"
    by (rule rnd_eqI [where e = 48 and M = "5404319552844595"]) (simp_all add: round_even_def)
  have r12: "rnd ((5404319552844595 / 2 ^ 48) / 5) = 8646911284551352 / 2 ^ 51"
    by (rule rnd_eqI [where e = 51 and M = "8646911284551352"]) (simp_all add: round_even_def)
  have r13: "rnd (sqrt (8646911284551352 / 2 ^ 51)) = 8825216874276938 / 2 ^ 52"
    by (rule rnd_sqrtI [where e = 52 and M = "8825216874276938"]) simp_all
  have r14: "rnd (1 + 8825216874276938 / 2 ^ 52) = 6664408250823717 / 2 ^ 51"
    by (rule rnd_eqI [where e = 51 and M = "6664408250823717"]) (simp_all add: round_even_def)
  have r15: "rnd ((5404319552844595 / 2 ^ 51) / (6664408250823717 / 2 ^ 51)) = 7304141825757367 / 2 ^ 53"
    by (rule rnd_eqI [where e = 53 and M = "7304141825757367"]) (simp_all add: round_even_def)
  show ?thesis
    by (simp only: score_of_def Let_def foldl.simps len mean_count_semicolon_example
          r1 r2 r3 r4 r5 r6 r7 r8 r9 r10 r11 r12 r13 r14 r15)
qed

text \<open>C10: among the candidates that qualify (mean field count at least 2), the one
  returned has the highest score, and under a tie it is the earliest in the order comma,
  tab, bar, semicolon: if candidate \<open>i\<close> qualifies, no qualifying candidate scores higher,
  and no qualifying candidate before \<open>i\<close> has the same score, then candidate \<open>i\<close> is
  returned. The scores are the \<open>double\<close>s the loop computes, every operation rounded: two
  candidates tie when they reach the same \<open>double\<close>. So tab wins over semicolon when both
  split every line in two, and semicolon wins over comma on five lines whose comma counts
  are 1, 1, 3, 6, 1 and whose semicolon counts are 1, 6, 1, 1, 3: the second score is one
  unit in the last place above the first.\<close>

theorem detect_delimiter_earliest_of_ties:
  assumes "lines = collect_lines data n 0 []"
    and "i < length candidates"
    and "2 \<le> mean_count (field_counts data lines (candidates ! i))"
    and "\<forall>j < length candidates.
           2 \<le> mean_count (field_counts data lines (candidates ! j)) \<longrightarrow>
           score_of (field_counts data lines (candidates ! j))
             \<le> score_of (field_counts data lines (candidates ! i))"
    and "\<forall>j < i.
           2 \<le> mean_count (field_counts data lines (candidates ! j)) \<longrightarrow>
           score_of (field_counts data lines (candidates ! j))
             \<noteq> score_of (field_counts data lines (candidates ! i))"
  shows "detect_delimiter data n = candidates ! i"
proof -
  from assms(3) mean_count_Nil [of data "candidates ! i"] have ne: "lines \<noteq> []" by auto
  with assms(1) have dne: "data \<noteq> []" using collect_lines_Nil [of n 0 "[]"] by auto
  from assms(3) have "0 \<le> score_of (field_counts data lines (candidates ! i))"
    by (intro score_of_nonneg) simp
  then have init: "snd (comma, - 1 :: real) < score_of (field_counts data lines (candidates ! i))"
    by simp
  have strict: "\<forall>j < i.
           2 \<le> mean_count (field_counts data lines (candidates ! j)) \<longrightarrow>
           score_of (field_counts data lines (candidates ! j))
             < score_of (field_counts data lines (candidates ! i))"
  proof (intro allI impI)
    fix j assume j: "j < i" and q: "2 \<le> mean_count (field_counts data lines (candidates ! j))"
    with assms(2) have "j < length candidates" by simp
    with assms(4) q have "score_of (field_counts data lines (candidates ! j))
             \<le> score_of (field_counts data lines (candidates ! i))" by blast
    moreover from assms(5) j q have "score_of (field_counts data lines (candidates ! j))
             \<noteq> score_of (field_counts data lines (candidates ! i))" by blast
    ultimately show "score_of (field_counts data lines (candidates ! j))
             < score_of (field_counts data lines (candidates ! i))" by simp
  qed
  from foldl_first_best [OF assms(2,3) init assms(4) strict]
  have "fst (foldl (candidate_step data lines) (comma, - 1) candidates) = candidates ! i"
    by simp
  with assms(1) ne dne show ?thesis by (simp add: detect_delimiter_def Let_def)
qed


theorem detect_delimiter_earliest_of_ties_witness:
  "detect_delimiter (''a'' @ [tab] @ ''b;c'' @ [newline]) 10 = tab
   \<and> score_of (field_counts (''a'' @ [tab] @ ''b;c'' @ [newline])
                 (collect_lines (''a'' @ [tab] @ ''b;c'' @ [newline]) 10 0 []) tab) = 2
   \<and> score_of (field_counts (''a'' @ [tab] @ ''b;c'' @ [newline])
                 (collect_lines (''a'' @ [tab] @ ''b;c'' @ [newline]) 10 0 []) CHR '';'') = 2
   \<and> detect_delimiter
       (''x'' @ [newline] @ ''x;;;;;'' @ [newline] @ ''x,,'' @ [newline]
         @ ''x,,,,,'' @ [newline] @ ''x;;'' @ [newline]) 10 = CHR '';''
   \<and> score_of (field_counts
       (''x'' @ [newline] @ ''x;;;;;'' @ [newline] @ ''x,,'' @ [newline]
         @ ''x,,,,,'' @ [newline] @ ''x;;'' @ [newline])
       (collect_lines
       (''x'' @ [newline] @ ''x;;;;;'' @ [newline] @ ''x,,'' @ [newline]
         @ ''x,,,,,'' @ [newline] @ ''x;;'' @ [newline]) 10 0 []) comma)
       = 7304141825757366 / 2 ^ 53
   \<and> score_of (field_counts
       (''x'' @ [newline] @ ''x;;;;;'' @ [newline] @ ''x,,'' @ [newline]
         @ ''x,,,,,'' @ [newline] @ ''x;;'' @ [newline])
       (collect_lines
       (''x'' @ [newline] @ ''x;;;;;'' @ [newline] @ ''x,,'' @ [newline]
         @ ''x,,,,,'' @ [newline] @ ''x;;'' @ [newline]) 10 0 []) CHR '';'')
       = 7304141825757367 / 2 ^ 53"
proof -
  have tie:
    "detect_delimiter (''a'' @ [tab] @ ''b;c'' @ [newline]) 10 = tab
     \<and> score_of (field_counts (''a'' @ [tab] @ ''b;c'' @ [newline])
                   (collect_lines (''a'' @ [tab] @ ''b;c'' @ [newline]) 10 0 []) tab) = 2
     \<and> score_of (field_counts (''a'' @ [tab] @ ''b;c'' @ [newline])
                   (collect_lines (''a'' @ [tab] @ ''b;c'' @ [newline]) 10 0 []) CHR '';'') = 2"
  proof -
    let ?D = "[CHR ''a'', tab, CHR ''b'', CHR '';'', CHR ''c'', newline]"
    let ?L = "[\<lparr>l_start = 0, l_len = 5\<rparr>]"
    have lines: "?L = collect_lines ?D 10 0 []" by code_simp
    have c0: "count_fields (view ?D 0 5) comma = 1" by code_simp
    have c1: "count_fields (view ?D 0 5) tab = 2" by code_simp
    have c2: "count_fields (view ?D 0 5) CHR ''|'' = 1" by code_simp
    have c3: "count_fields (view ?D 0 5) CHR '';'' = 2" by code_simp
    have f0: "field_counts ?D ?L comma = [1]" using c0 by (simp add: field_counts_def)
    have f1: "field_counts ?D ?L tab = [2]" using c1 by (simp add: field_counts_def)
    have f2: "field_counts ?D ?L CHR ''|'' = [1]" using c2 by (simp add: field_counts_def)
    have f3: "field_counts ?D ?L CHR '';'' = [2]" using c3 by (simp add: field_counts_def)
    have m1: "mean_count [1] = 1" and m2: "mean_count [2] = 2"
      by (simp_all add: mean_count_def rnd_1 rnd_2)
    have s2: "score_of [2] = 2" by (simp add: score_of_def m2 rnd_0 rnd_1 rnd_2)
    have i: "1 < length candidates" by (simp add: candidates_def)
    have q: "2 \<le> mean_count (field_counts ?D ?L (candidates ! 1))"
      by (simp add: candidates_def f1 m2)
    have le: "\<forall>j < length candidates.
             2 \<le> mean_count (field_counts ?D ?L (candidates ! j)) \<longrightarrow>
             score_of (field_counts ?D ?L (candidates ! j))
               \<le> score_of (field_counts ?D ?L (candidates ! 1))"
      by (simp add: candidates_def All_less_Suc f0 f1 f2 f3 m1 m2 s2)
    have ne: "\<forall>j < 1.
             2 \<le> mean_count (field_counts ?D ?L (candidates ! j)) \<longrightarrow>
             score_of (field_counts ?D ?L (candidates ! j))
               \<noteq> score_of (field_counts ?D ?L (candidates ! 1))"
      by (simp add: candidates_def f0 m1)
    from detect_delimiter_earliest_of_ties [OF lines i q le ne]
    have "detect_delimiter ?D 10 = tab" by (simp add: candidates_def)
    then show ?thesis using f1 f3 s2 lines [symmetric] by simp
  qed
  have last_bit:
    "detect_delimiter
         (''x'' @ [newline] @ ''x;;;;;'' @ [newline] @ ''x,,'' @ [newline]
           @ ''x,,,,,'' @ [newline] @ ''x;;'' @ [newline]) 10 = CHR '';''
     \<and> score_of (field_counts
         (''x'' @ [newline] @ ''x;;;;;'' @ [newline] @ ''x,,'' @ [newline]
           @ ''x,,,,,'' @ [newline] @ ''x;;'' @ [newline])
         (collect_lines
         (''x'' @ [newline] @ ''x;;;;;'' @ [newline] @ ''x,,'' @ [newline]
           @ ''x,,,,,'' @ [newline] @ ''x;;'' @ [newline]) 10 0 []) comma)
         = 7304141825757366 / 2 ^ 53
     \<and> score_of (field_counts
         (''x'' @ [newline] @ ''x;;;;;'' @ [newline] @ ''x,,'' @ [newline]
           @ ''x,,,,,'' @ [newline] @ ''x;;'' @ [newline])
         (collect_lines
         (''x'' @ [newline] @ ''x;;;;;'' @ [newline] @ ''x,,'' @ [newline]
           @ ''x,,,,,'' @ [newline] @ ''x;;'' @ [newline]) 10 0 []) CHR '';'')
         = 7304141825757367 / 2 ^ 53"
  proof -
    define V where "V = [CHR ''x'', newline, CHR ''x'', CHR '';'', CHR '';'', CHR '';'', CHR '';'', CHR '';'', newline, CHR ''x'', comma, comma, newline, CHR ''x'', comma, comma, comma, comma, comma, newline, CHR ''x'', CHR '';'', CHR '';'', newline]"
    define K where "K = [\<lparr>l_start = 0, l_len = 1\<rparr>, \<lparr>l_start = 2, l_len = 6\<rparr>, \<lparr>l_start = 9, l_len = 3\<rparr>, \<lparr>l_start = 13, l_len = 6\<rparr>, \<lparr>l_start = 20, l_len = 3\<rparr>]"
    have lines: "K = collect_lines V 10 0 []" unfolding V_def K_def by code_simp
    have c0: "map (\<lambda>l. count_fields (view V (l_start l) (l_len l)) comma) K = [1, 1, 3, 6, 1]"
      unfolding V_def K_def by code_simp
    have c1: "map (\<lambda>l. count_fields (view V (l_start l) (l_len l)) tab) K = [1, 1, 1, 1, 1]"
      unfolding V_def K_def by code_simp
    have c2: "map (\<lambda>l. count_fields (view V (l_start l) (l_len l)) CHR ''|'') K = [1, 1, 1, 1, 1]"
      unfolding V_def K_def by code_simp
    have c3: "map (\<lambda>l. count_fields (view V (l_start l) (l_len l)) CHR '';'') K = [1, 6, 1, 1, 3]"
      unfolding V_def K_def by code_simp
    have fc: "field_counts V K c = map real (map (\<lambda>l. count_fields (view V (l_start l) (l_len l)) c) K)"
      for c by (simp add: field_counts_def)
    have f0: "field_counts V K comma = [1, 1, 3, 6, 1]" by (simp add: fc c0)
    have f1: "field_counts V K tab = [1, 1, 1, 1, 1]" by (simp add: fc c1)
    have f2: "field_counts V K CHR ''|'' = [1, 1, 1, 1, 1]" by (simp add: fc c2)
    have f3: "field_counts V K CHR '';'' = [1, 6, 1, 1, 3]" by (simp add: fc c3)
    have m1: "mean_count [1, 1, 1, 1, 1] = 1" by (simp add: mean_count_def rnd_1)
    have nth: "candidates ! 0 = comma" "candidates ! Suc 0 = tab" "candidates ! 2 = CHR ''|''"
      "candidates ! 3 = CHR '';''" by (simp_all add: candidates_def)
    have i: "3 < length candidates" by (simp add: candidates_def)
    have q: "2 \<le> mean_count (field_counts V K (candidates ! 3))"
      by (simp add: nth f3 mean_count_semicolon_example)
    have le: "\<forall>j < length candidates.
             2 \<le> mean_count (field_counts V K (candidates ! j)) \<longrightarrow>
             score_of (field_counts V K (candidates ! j))
               \<le> score_of (field_counts V K (candidates ! 3))"
    proof (intro allI impI)
      fix j
      assume "j < length candidates"
      then have "j < 4" by (simp add: candidates_def)
      then consider "j = 0" | "j = 1" | "j = 2" | "j = 3" by linarith
      moreover assume "2 \<le> mean_count (field_counts V K (candidates ! j))"
      ultimately show "score_of (field_counts V K (candidates ! j))
               \<le> score_of (field_counts V K (candidates ! 3))"
        by cases (simp_all add: nth f0 f1 f2 f3 m1 score_of_comma_example score_of_semicolon_example)
    qed
    have ne: "\<forall>j < 3.
             2 \<le> mean_count (field_counts V K (candidates ! j)) \<longrightarrow>
             score_of (field_counts V K (candidates ! j))
               \<noteq> score_of (field_counts V K (candidates ! 3))"
    proof (intro allI impI)
      fix j :: nat
      assume "j < 3"
      then consider "j = 0" | "j = 1" | "j = 2" by linarith
      moreover assume "2 \<le> mean_count (field_counts V K (candidates ! j))"
      ultimately show "score_of (field_counts V K (candidates ! j))
               \<noteq> score_of (field_counts V K (candidates ! 3))"
        by cases (simp_all add: nth f0 f1 f2 f3 m1 score_of_comma_example score_of_semicolon_example)
    qed
    from detect_delimiter_earliest_of_ties [OF lines i q le ne]
    have "detect_delimiter V 10 = CHR '';''" by (simp add: nth)
    moreover from f0 score_of_comma_example lines
    have "score_of (field_counts V (collect_lines V 10 0 []) comma) = 7304141825757366 / 2 ^ 53"
      by simp
    moreover from f3 score_of_semicolon_example lines
    have "score_of (field_counts V (collect_lines V 10 0 []) CHR '';'') = 7304141825757367 / 2 ^ 53"
      by simp
    ultimately show ?thesis unfolding V_def by simp
  qed
  from tie last_bit show ?thesis by simp
qed

section \<open>The vectorized newline count\<close>

lemma scalar_newlines_count: "scalar_newlines xs n = n + count_list xs newline"
  by (induction xs arbitrary: n) auto

lemma byte_is_newline: "(of_nat (of_char c) :: u8) = 0x0A \<longleftrightarrow> c = newline"
proof
  assume "(of_nat (of_char c) :: u8) = 0x0A"
  then have "unat (of_nat (of_char c) :: u8) = unat (0x0A :: u8)" by simp
  moreover have "(of_char c :: nat) < 256" by simp
  ultimately have "(of_char c :: nat) = 10" by (simp add: unat_of_nat)
  then have "(of_char c :: nat) = of_char newline" by simp
  then show "c = newline" by (simp only: of_char_eq_iff)
next
  assume "c = newline"
  then show "(of_nat (of_char c) :: u8) = 0x0A" by simp
qed

lemma lane_hits:
  "length xs = n \<Longrightarrow>
   vandq_u8 (vceqq_u8 (map (\<lambda>c. of_nat (of_char c)) xs) (replicate n 0x0A)) (replicate n 1)
     = map (\<lambda>c. if c = newline then 1 else 0) xs"
proof (induction xs arbitrary: n)
  case Nil
  then show ?case by (simp add: vandq_u8_def vceqq_u8_def)
next
  case (Cons c cs)
  then obtain m where n: "n = Suc m" and m: "length cs = m" by (cases n) auto
  from Cons.IH [OF m] show ?case
    by (simp add: n vandq_u8_def vceqq_u8_def byte_is_newline)
qed

lemma sum_list_hits:
  "sum_list (map (\<lambda>c. if c = newline then 1 else 0 :: u8) xs) = of_nat (count_list xs newline)"
  by (induction xs) auto

lemma sum_list_map2_add:
  "length a = length b \<Longrightarrow> sum_list (map2 (\<lambda>x y. x + y) a b) = sum_list a + (sum_list b :: u8)"
  by (induction a b rule: list_induct2) (simp_all add: algebra_simps)

lemma neon_step_sum:
  assumes "length acc = 16" and "i + 16 \<le> length d"
  shows "vaddvq_u8 (vaddq_u8 acc (vandq_u8 (vceqq_u8 (vld1q_u8 d i) (vdupq_n_u8 0x0A)) (vdupq_n_u8 1)))
           = vaddvq_u8 acc + of_nat (count_list (take 16 (drop i d)) newline)"
    and "length (vaddq_u8 acc (vandq_u8 (vceqq_u8 (vld1q_u8 d i) (vdupq_n_u8 0x0A)) (vdupq_n_u8 1))) = 16"
proof -
  have len: "length (take 16 (drop i d)) = 16" using assms(2) by simp
  have hits: "vandq_u8 (vceqq_u8 (vld1q_u8 d i) (vdupq_n_u8 0x0A)) (vdupq_n_u8 1)
      = map (\<lambda>c. if c = newline then 1 else 0) (take 16 (drop i d))"
    unfolding vld1q_u8_def vdupq_n_u8_def by (rule lane_hits [OF len])
  show "vaddvq_u8 (vaddq_u8 acc (vandq_u8 (vceqq_u8 (vld1q_u8 d i) (vdupq_n_u8 0x0A)) (vdupq_n_u8 1)))
           = vaddvq_u8 acc + of_nat (count_list (take 16 (drop i d)) newline)"
    unfolding hits vaddvq_u8_def vaddq_u8_def
    using assms(1) len by (simp add: sum_list_map2_add sum_list_hits)
  show "length (vaddq_u8 acc (vandq_u8 (vceqq_u8 (vld1q_u8 d i) (vdupq_n_u8 0x0A)) (vdupq_n_u8 1))) = 16"
    unfolding hits vaddq_u8_def using assms(1) len by simp
qed

lemma count_list_take_add:
  "count_list (take (a + b) xs) y = count_list (take a xs) y + count_list (take b (drop a xs)) y"
  by (simp add: take_add)

lemma neon_batch_sum:
  "length acc = 16 \<Longrightarrow> j \<le> batch \<Longrightarrow> i + 16 * (batch - j) \<le> length d \<Longrightarrow>
   vaddvq_u8 (snd (neon_batch d batch j i acc))
     = vaddvq_u8 acc + of_nat (count_list (take (16 * (batch - j)) (drop i d)) newline)"
proof (induction d batch j i acc rule: neon_batch.induct)
  case (1 d batch j i acc)
  show ?case
  proof (cases "j < batch")
    case False
    with "1.prems" show ?thesis by (subst neon_batch.simps) simp
  next
    case True
    let ?acc = "vaddq_u8 acc (vandq_u8 (vceqq_u8 (vld1q_u8 d i) (vdupq_n_u8 0x0A)) (vdupq_n_u8 1))"
    from True have split: "16 * (batch - j) = 16 + 16 * (batch - (j + 1))" by simp
    with "1.prems"(3) have i16: "i + 16 \<le> length d"
      and rest: "(i + 16) + 16 * (batch - (j + 1)) \<le> length d" by simp_all
    note step = neon_step_sum [OF "1.prems"(1) i16]
    from True have j1: "j + 1 \<le> batch" by simp
    have "vaddvq_u8 (snd (neon_batch d batch j i acc))
        = vaddvq_u8 (snd (neon_batch d batch (j + 1) (i + 16) ?acc))"
      using True by (subst neon_batch.simps) simp
    also have "\<dots> = vaddvq_u8 ?acc
        + of_nat (count_list (take (16 * (batch - (j + 1))) (drop (i + 16) d)) newline)"
      by (rule "1.IH" [OF True step(2) j1 rest])
    also have "\<dots> = vaddvq_u8 acc + of_nat (count_list (take 16 (drop i d)) newline)
        + of_nat (count_list (take (16 * (batch - (j + 1))) (drop (i + 16) d)) newline)"
      by (simp only: step(1))
    also have "\<dots> = vaddvq_u8 acc
        + of_nat (count_list (take (16 * (batch - j)) (drop i d)) newline)"
      unfolding split count_list_take_add by (simp add: add.commute add.assoc)
    finally show ?thesis .
  qed
qed


lemma neon_loop_step:
  "i + 16 \<le> len \<Longrightarrow>
   neon_loop d len i count =
     neon_loop d len (fst (neon_batch d (min ((len - i) div 16) 255) 0 i (vdupq_n_u8 0)))
       (count + unat (vaddvq_u8 (snd (neon_batch d (min ((len - i) div 16) 255) 0 i (vdupq_n_u8 0)))))"
  by (subst neon_loop.simps) (simp add: case_prod_beta)

lemma neon_loop_stop: "\<not> i + 16 \<le> len \<Longrightarrow> neon_loop d len i count = (i, count)"
  by (subst neon_loop.simps) simp

lemma vaddvq_zero: "vaddvq_u8 (vdupq_n_u8 0) = 0"
  by (simp add: vaddvq_u8_def vdupq_n_u8_def sum_list_replicate)

lemma neon_batch_wraps:
  assumes "i + 16 * batch \<le> length d"
  shows "unat (vaddvq_u8 (snd (neon_batch d batch 0 i (vdupq_n_u8 0))))
           = count_list (take (16 * batch) (drop i d)) newline mod 256"
proof -
  have "length (vdupq_n_u8 0) = 16" by (simp add: vdupq_n_u8_def)
  from neon_batch_sum [OF this, of 0 batch i d] assms
  have "vaddvq_u8 (snd (neon_batch d batch 0 i (vdupq_n_u8 0)))
      = of_nat (count_list (take (16 * batch) (drop i d)) newline)"
    by (simp add: vaddvq_zero)
  then show ?thesis by (simp add: unat_of_nat)
qed

lemma neon_loop_single_batch:
  assumes "len \<le> length d" and "16 \<le> len" and "len div 16 \<le> 255"
  shows "neon_loop d len 0 0
           = (16 * (len div 16), count_list (take (16 * (len div 16)) d) newline mod 256)"
proof -
  let ?b = "len div 16"
  have b: "min (len div 16) 255 = ?b" using assms(3) by simp
  have fit: "0 + 16 * ?b \<le> length d" using assms(1) by simp
  have "neon_loop d len 0 0
      = neon_loop d len (16 * ?b) (count_list (take (16 * ?b) d) newline mod 256)"
    using assms(2) neon_batch_wraps [OF fit]
    by (subst neon_loop_step) (simp_all add: b neon_batch_index)
  moreover have "\<not> 16 * ?b + 16 \<le> len"
  proof -
    have "len < 16 * ?b + 16" using div_mult_mod_eq [of len 16] mod_less_divisor [of 16 len]
      by linarith
    then show ?thesis by simp
  qed
  ultimately show ?thesis by (simp add: neon_loop_stop)
qed

lemma count_list_concat_replicate:
  "count_list (concat (replicate n xs)) y = n * count_list xs y"
  by (induction n) (simp_all add: count_list_append)

lemma length_concat_replicate: "length (concat (replicate n xs)) = n * length xs"
  by (induction n) simp_all

lemma last_concat_replicate:
  "xs \<noteq> [] \<Longrightarrow> 0 < n \<Longrightarrow> last (concat (replicate n xs)) = last xs"
proof (induction n)
  case 0
  then show ?case by simp
next
  case (Suc n)
  have "concat (replicate (Suc n) xs) = concat (replicate n xs) @ xs"
    by (simp add: replicate_append_same [symmetric])
  with Suc.prems(1) show ?case by simp
qed

text \<open>C8, on the 512 bytes of 256 lines \<open>1\<close>, each ended by a newline: the scalar loop
  counts 256 newline bytes. The vectorized loop handles the 32 blocks in one batch; no lane
  exceeds 32, but \<open>vaddvq_u8\<close> adds the lanes into 8 bits, where the sum 256 wraps to 0. So
  the two builds of \<open>count_newlines\<close> differ, and with them \<open>count_rows_from\<close>.\<close>

theorem neon_count_wraps_at_256:
  "count_newlines True (concat (replicate 256 [CHR ''1'', newline])) 512 = 0
   \<and> count_newlines False (concat (replicate 256 [CHR ''1'', newline])) 512 = 256
   \<and> count_rows_from True (concat (replicate 256 [CHR ''1'', newline])) 0 = 0
   \<and> count_rows_from False (concat (replicate 256 [CHR ''1'', newline])) 0 = 256"
proof -
  let ?d = "concat (replicate 256 [CHR ''1'', newline])"
  have len: "length ?d = 512" by (simp add: length_concat_replicate)
  have nl: "count_list ?d newline = 256" by (simp add: count_list_concat_replicate)
  have loop: "neon_loop ?d 512 0 0 = (512, 0)"
    using neon_loop_single_batch [of 512 ?d] len nl by simp
  have t: "count_newlines True ?d 512 = 0"
    by (simp add: count_newlines_def loop)
  have f: "count_newlines False ?d 512 = 256"
    using len nl by (simp add: count_newlines_def scalar_newlines_count)
  have noq: "memchr (drop 0 ?d) 0 dquote 512 = None"
    using len by (simp add: memchr_def Let_def)
  have "last ?d = newline" by (simp add: last_concat_replicate)
  moreover have "?d \<noteq> []" using len by auto
  ultimately have lastb: "?d ! 511 = newline"
    using len by (simp add: last_conv_nth)
  from t f noq lastb len show ?thesis
    by (simp add: count_rows_from_def Let_def)
qed


text \<open>Below 256 newline bytes in the range the horizontal sum cannot wrap, and the
  vectorized count is the scalar count.\<close>

lemma neon_loop_exact:
  "len \<le> length d \<Longrightarrow> i \<le> len \<Longrightarrow>
   count_list (take (len - i) (drop i d)) newline < 256 \<Longrightarrow>
   i \<le> fst (neon_loop d len i count) \<and> fst (neon_loop d len i count) \<le> len
   \<and> snd (neon_loop d len i count)
       = count + count_list (take (fst (neon_loop d len i count) - i) (drop i d)) newline"
proof (induction "len - i" arbitrary: i count rule: less_induct)
  case less
  show ?case
  proof (cases "i + 16 \<le> len")
    case False
    with less.prems(2) show ?thesis by (simp add: neon_loop_stop)
  next
    case True
    define b where "b = min ((len - i) div 16) 255"
    define i1 where "i1 = i + 16 * b"
    define cb where "cb = count_list (take (16 * b) (drop i d)) newline"
    from True have b1: "1 \<le> b" by (simp add: b_def Suc_le_eq div_greater_zero_iff)
    have "16 * ((len - i) div 16) \<le> len - i" by simp
    moreover have "16 * b \<le> 16 * ((len - i) div 16)" by (simp add: b_def)
    ultimately have span: "16 * b \<le> len - i" by (rule order_trans [rotated])
    with less.prems(2) have i1len: "i1 \<le> len" by (simp add: i1_def)
    with less.prems(1) have fit: "i + 16 * b \<le> length d" by (simp add: i1_def)
    obtain r where r: "len - i = 16 * b + r" using span by (metis le_Suc_ex)
    have dd: "drop (16 * b) (drop i d) = drop i1 d" by (simp add: i1_def add.commute)
    have "count_list (take (16 * b + r) (drop i d)) newline
        = cb + count_list (take r (drop i1 d)) newline"
      by (simp only: count_list_take_add dd cb_def)
    with r have whole: "count_list (take (len - i) (drop i d)) newline
        = cb + count_list (take r (drop i1 d)) newline" by simp
    with less.prems(3) have small: "cb < 256" by simp
    have r': "len - i1 = r" using r i1len less.prems(2) by (simp add: i1_def)
    from whole less.prems(3) have rest: "count_list (take (len - i1) (drop i1 d)) newline < 256"
      by (simp add: r')
    have "unat (vaddvq_u8 (snd (neon_batch d b 0 i (vdupq_n_u8 0)))) = cb"
      using small neon_batch_wraps [OF fit] by (simp add: cb_def)
    then have step: "neon_loop d len i count = neon_loop d len i1 (count + cb)"
      by (subst neon_loop_step [OF True]) (simp add: neon_batch_index b_def [symmetric] i1_def)
    have dec: "len - i1 < len - i" using b1 True by (simp add: i1_def)
    note ih = less.hyps [OF dec less.prems(1) i1len rest, of "count + cb"]
    define i' where "i' = fst (neon_loop d len i1 (count + cb))"
    from ih have ge: "i1 \<le> i'" and le: "i' \<le> len"
      and cnt: "snd (neon_loop d len i1 (count + cb))
          = count + cb + count_list (take (i' - i1) (drop i1 d)) newline"
      by (simp_all add: i'_def)
    from ge have diff: "i' - i = 16 * b + (i' - i1)" by (simp add: i1_def)
    have "count_list (take (16 * b + (i' - i1)) (drop i d)) newline
        = cb + count_list (take (i' - i1) (drop i1 d)) newline"
      by (simp only: count_list_take_add dd cb_def)
    with diff have "count_list (take (i' - i) (drop i d)) newline
        = cb + count_list (take (i' - i1) (drop i1 d)) newline" by simp
    moreover from ge have "i \<le> i'" by (simp add: i1_def)
    ultimately show ?thesis using le cnt by (simp add: step i'_def [symmetric])
  qed
qed

lemma neon_agrees_below_256:
  assumes "len \<le> length d" and "count_list (take len d) newline < 256"
  shows "count_newlines True d len = count_newlines False d len"
proof -
  let ?i = "fst (neon_loop d len 0 0)"
  from neon_loop_exact [OF assms(1), of 0 0] assms(2)
  have le: "?i \<le> len" and cnt: "snd (neon_loop d len 0 0) = count_list (take ?i d) newline"
    by simp_all
  from le obtain r where r: "len = ?i + r" by (metis le_Suc_ex)
  then have r': "len - ?i = r" by simp
  have "count_newlines True d len
      = count_list (take ?i d) newline + count_list (take (len - ?i) (drop ?i d)) newline"
    by (simp add: count_newlines_def case_prod_beta scalar_newlines_count cnt)
  also have "\<dots> = count_list (take len d) newline"
    unfolding r' using count_list_take_add [of ?i r d newline] r by simp
  also have "\<dots> = count_newlines False d len"
    by (simp add: count_newlines_def scalar_newlines_count)
  finally show ?thesis .
qed

section \<open>Properties of unquote\<close>

lemma unescape_double_quotes: "unescape (double_quotes x) = x"
proof (induction x)
  case Nil
  show ?case by simp
next
  case (Cons c cs)
  show ?case
  proof (cases "c = dquote")
    case True
    with Cons show ?thesis by simp
  next
    case False
    with Cons show ?thesis by (cases "double_quotes cs") auto
  qed
qed

text \<open>C4: \<open>unquote (quoteField x) = x\<close> for every string \<open>x\<close>; a value that is not
  bookended by double quotes (shorter than two bytes, or not starting or not ending with a
  quote) is returned unchanged, and so is the string made of one lone quote.\<close>

theorem unquote_quoteField:
  "unquote (quoteField x) = x
   \<and> (\<not> (length v \<ge> 2 \<and> hd v = dquote \<and> last v = dquote) \<longrightarrow> unquote v = v)
   \<and> unquote [dquote] = [dquote]"
  by (simp add: unquote_def quoteField_def unescape_double_quotes butlast_append)

theorem unquote_quoteField_witness:
  "unquote (quoteField [CHR ''a'', dquote, comma, newline]) = [CHR ''a'', dquote, comma, newline]
   \<and> \<not> (length [dquote, CHR ''a''] \<ge> 2 \<and> hd [dquote, CHR ''a''] = dquote
        \<and> last [dquote, CHR ''a''] = dquote)
   \<and> unquote [dquote, CHR ''a''] = [dquote, CHR ''a'']
   \<and> unquote [dquote] = [dquote]"
  using unquote_quoteField [of "[CHR ''a'', dquote, comma, newline]" "[dquote, CHR ''a'']"]
  by simp

end
